theory Spec2Isabelle
  imports Complex_Main "HOL-Library.Word" "HOL-Library.AList" "HOL-Library.Sublist"
    "HOL-Library.Multiset"
begin

unbundle bit_operations_syntax

section \<open>Data model\<close>

text \<open>
  A \<^verbatim>\<open>bytes\<close> object is a list of 8-bit words. A Python \<^verbatim>\<open>str\<close> is a sequence of code
  points, here a list of naturals, so that \<^verbatim>\<open>len\<close> is \<open>length\<close>.
\<close>

type_synonym byte = "8 word"
type_synonym bytes = "byte list"
type_synonym pystr = "nat list"

text \<open>
  The dictionary built by \<^verbatim>\<open>decode_danmaku_element\<close> holds integers under the varint keys
  and strings under the length-delimited keys. It is an association list updated like a
  Python dict (an existing key keeps its place), so that its emptiness test computes.
\<close>

datatype pyval = PInt int | PStr pystr

type_synonym pydict = "(string \<times> pyval) list"

text \<open>\<^verbatim>\<open>class DanmakuElement\<close>; the attribute \<^verbatim>\<open>id\<close> is named \<open>dm_id\<close> here.\<close>

record DanmakuElement =
  dm_id :: int
  progress :: int
  mode :: int
  fontsize :: int
  color :: int
  ctime :: int
  pool :: int
  midHash :: pystr
  content :: pystr
  weight :: int

text \<open>\<^verbatim>\<open>data.get(key, default)\<close> at an integer attribute and at a string attribute.\<close>

definition get_int :: "pydict \<Rightarrow> string \<Rightarrow> int \<Rightarrow> int" where
  "get_int data key dflt = (case map_of data key of Some (PInt v) \<Rightarrow> v | _ \<Rightarrow> dflt)"

definition get_str :: "pydict \<Rightarrow> string \<Rightarrow> pystr \<Rightarrow> pystr" where
  "get_str data key dflt = (case map_of data key of Some (PStr s) \<Rightarrow> s | _ \<Rightarrow> dflt)"

definition DanmakuElement_init :: "pydict \<Rightarrow> DanmakuElement" where
  "DanmakuElement_init data =
     \<lparr> dm_id = get_int data ''id'' 0,
       progress = get_int data ''progress'' 0,
       mode = get_int data ''mode'' 1,
       fontsize = get_int data ''fontsize'' 25,
       color = get_int data ''color'' 16777215,
       ctime = get_int data ''ctime'' 0,
       pool = get_int data ''pool'' 0,
       midHash = get_str data ''midHash'' [],
       content = get_str data ''content'' [],
       weight = get_int data ''weight'' 0 \<rparr>"

subsection \<open>The Python runtime and the remote end\<close>

text \<open>
  What the program takes from outside the repository is a parameter of the model:
  the built-in \<^verbatim>\<open>hash\<close> on strings, the interpreter's limit on the digits of an integer
  it will render (\<^verbatim>\<open>sys.get_int_max_str_digits()\<close>, 4300 unless changed, 0 for none; the
  interpreters before the limit was introduced have none), the UTF-8 codec (strict, which may fail, and with
  \<^verbatim>\<open>errors='ignore'\<close>, which cannot), the wall clock, \<^verbatim>\<open>datetime.fromtimestamp\<close>
  (\<open>None\<close> when it raises on a timestamp without a calendar date), and the server behind
  \<^verbatim>\<open>session.get\<close>: a state machine of any state type \<open>'s\<close>, which answers a URL with a
  status and a body, or with a raised transport exception.
\<close>

text \<open>
  \<open>SegUrl cid i\<close> is the live-segment address with \<^verbatim>\<open>oid=cid\<close> and \<^verbatim>\<open>segment_index=i\<close>;
  \<open>HistUrl date cid\<close> is the archive address with \<^verbatim>\<open>date=date\<close> and \<^verbatim>\<open>oid=cid\<close>.
\<close>

type_synonym datetime = int

datatype url = SegUrl int nat | HistUrl int int

datatype response = Transport_error | Response (status_code: int) (body: bytes)

text \<open>The exceptions of the interpreter that the program can meet.\<close>

datatype error = ValueError | OverflowError

record 's runtime =
  py_hash :: "pystr \<Rightarrow> int"
  int_max_str_digits :: int
  utf8_strict :: "bytes \<Rightarrow> pystr option"
  utf8_ignore :: "bytes \<Rightarrow> pystr"
  now :: datetime
  fromtimestamp :: "int \<Rightarrow> datetime option"
  net :: "'s \<Rightarrow> url \<Rightarrow> response \<times> 's"

section \<open>Fingerprints\<close>

text \<open>Decimal rendering of an integer, as an f-string prints it.\<close>

fun str_nat :: "nat \<Rightarrow> string" where
  "str_nat n = (if n < 10 then [''0123456789'' ! n]
                else str_nat (n div 10) @ [''0123456789'' ! (n mod 10)])"

declare str_nat.simps [simp del]

definition str_int :: "int \<Rightarrow> string" where
  "str_int i = (if i < 0 then ''-'' @ str_nat (nat (- i)) else str_nat (nat i))"

text \<open>
  The conversion of an integer to text inside an f-string: it raises \<^verbatim>\<open>ValueError\<close> when
  the integer has more digits than the interpreter's limit allows.
\<close>

definition format_int :: "('s, 'x) runtime_scheme \<Rightarrow> int \<Rightarrow> error + string" where
  "format_int rt i =
     (if 0 < int_max_str_digits rt \<and> int_max_str_digits rt < int (length (str_nat (nat \<bar>i\<bar>)))
      then Inl ValueError else Inr (str_int i))"

text \<open>
  \<^verbatim>\<open>get_unique_id\<close>:
  \<^verbatim>\<open>f"{self.progress or 1}_{len(self.content)}_{hash(self.midHash) % (2**32)}"\<close>.
  The three values are rendered from left to right.
\<close>

definition get_unique_id :: "('s, 'x) runtime_scheme \<Rightarrow> DanmakuElement \<Rightarrow> error + string" where
  "get_unique_id rt d =
     (case format_int rt (if progress d = 0 then 1 else progress d) of
        Inl e \<Rightarrow> Inl e
      | Inr p \<Rightarrow>
          (case format_int rt (int (length (content d))) of
             Inl e \<Rightarrow> Inl e
           | Inr n \<Rightarrow>
               (case format_int rt (py_hash rt (midHash d) mod 2 ^ 32) of
                  Inl e \<Rightarrow> Inl e
                | Inr h \<Rightarrow> Inr (p @ ''_'' @ n @ ''_'' @ h))))"

section \<open>ProtobufDecoder\<close>

text \<open>
  \<^verbatim>\<open>decode_varint(data, offset)\<close>: the loop reads \<^verbatim>\<open>data[pos]\<close> only under the guard
  \<^verbatim>\<open>pos < len(data)\<close>, so it cannot raise. Results are unbounded and never negative.
\<close>

function varint_loop :: "bytes \<Rightarrow> nat \<Rightarrow> nat \<Rightarrow> nat \<Rightarrow> nat \<times> nat" where
  "varint_loop data result shift pos =
     (if pos < length data then
        (if (data ! pos) AND 0x80 = 0
         then (result OR push_bit shift (unat ((data ! pos) AND 0x7F)), pos + 1)
         else varint_loop data (result OR push_bit shift (unat ((data ! pos) AND 0x7F)))
                (shift + 7) (pos + 1))
      else (result, pos))"
  by pat_completeness auto
termination
  by (relation "measure (\<lambda>(data, result, shift, pos). length data - pos)") auto

declare varint_loop.simps [simp del]

definition decode_varint :: "bytes \<Rightarrow> nat \<Rightarrow> nat \<times> nat" where
  "decode_varint data offset = varint_loop data 0 0 offset"

text \<open>
  \<^verbatim>\<open>decode_string(data, offset, length)\<close>: the strict decoding of the slice, and the
  lenient one when the strict one raises \<^verbatim>\<open>UnicodeDecodeError\<close>. A slice never raises.
\<close>

definition decode_string :: "('s, 'x) runtime_scheme \<Rightarrow> bytes \<Rightarrow> nat \<Rightarrow> nat \<Rightarrow> pystr" where
  "decode_string rt data offset len =
     (case utf8_strict rt (take len (drop offset data)) of
        Some s \<Rightarrow> s
      | None \<Rightarrow> utf8_ignore rt (take len (drop offset data)))"

definition field_map :: "(nat \<times> string) list" where
  "field_map = [(1, ''id''), (2, ''progress''), (3, ''mode''), (4, ''fontsize''),
                (5, ''color''), (8, ''ctime''), (9, ''weight''), (11, ''pool'')]"

definition string_map :: "(nat \<times> string) list" where
  "string_map = [(6, ''midHash''), (7, ''content''), (12, ''idStr'')]"

lemma varint_loop_pos_le: "pos \<le> snd (varint_loop data result shift pos)"
proof (induction data result shift pos rule: varint_loop.induct)
  case (1 data result shift pos)
  show ?case
  proof (cases "pos < length data \<and> (data ! pos) AND 0x80 \<noteq> 0")
    case True
    with "1" have "pos + 1 \<le> snd (varint_loop data
        (result OR push_bit shift (unat ((data ! pos) AND 0x7F))) (shift + 7) (pos + 1))"
      by simp
    with True show ?thesis
      by (subst varint_loop.simps) simp
  next
    case False
    then show ?thesis
      by (subst varint_loop.simps) auto
  qed
qed

lemma varint_loop_pos_less:
  "pos < length data \<Longrightarrow> pos < snd (varint_loop data result shift pos)"
proof -
  assume lt: "pos < length data"
  show ?thesis
  proof (cases "(data ! pos) AND 0x80 = 0")
    case True
    with lt show ?thesis
      by (subst varint_loop.simps) simp
  next
    case False
    have "pos + 1 \<le> snd (varint_loop data
        (result OR push_bit shift (unat ((data ! pos) AND 0x7F))) (shift + 7) (pos + 1))"
      by (rule varint_loop_pos_le)
    with lt False show ?thesis
      by (subst varint_loop.simps) simp
  qed
qed

lemma decode_varint_advances:
  "pos < length data \<Longrightarrow> decode_varint data pos = (v, pos') \<Longrightarrow> pos < pos'"
  using varint_loop_pos_less [of pos data 0 0] by (simp add: decode_varint_def)

lemma decode_varint_mono: "decode_varint data pos = (v, pos') \<Longrightarrow> pos \<le> pos'"
  using varint_loop_pos_le [of pos data 0 0] by (simp add: decode_varint_def)

lemma two_varints_decrease:
  assumes "pos < length data"
    and "(t, pos1) = decode_varint data pos"
    and "(v, pos2) = decode_varint data pos1"
  shows "length data - (pos2 + k) < length data - pos"
proof -
  have "pos < pos1"
    using assms(1,2) decode_varint_advances [of pos data t pos1] by simp
  moreover have "pos1 \<le> pos2"
    using assms(3) decode_varint_mono [of data pos1 v pos2] by simp
  ultimately show ?thesis
    using assms(1) by linarith
qed

text \<open>
  \<^verbatim>\<open>decode_danmaku_element(data)\<close>. Nothing in the \<^verbatim>\<open>try\<close> block can raise (guarded
  indexing, slices, the lenient codec), so its \<^verbatim>\<open>except\<close> branch has no counterpart.
  \<open>None\<close> is Python's \<^verbatim>\<open>None\<close>, returned for an empty dictionary.
\<close>

function element_loop :: "('s, 'x) runtime_scheme \<Rightarrow> bytes \<Rightarrow> nat \<Rightarrow> pydict \<Rightarrow> pydict" where
  "element_loop rt data pos element =
     (if pos < length data then
        (case decode_varint data pos of (field_tag, pos1) \<Rightarrow>
           let field_number = drop_bit 3 field_tag; wire_type = field_tag AND 7 in
           if wire_type = 0 then
             (case decode_varint data pos1 of (val, pos2) \<Rightarrow>
                element_loop rt data pos2
                  (case map_of field_map field_number of
                     Some key \<Rightarrow> AList.update key (PInt (int val)) element
                   | None \<Rightarrow> element))
           else if wire_type = 2 then
             (case decode_varint data pos1 of (len, pos2) \<Rightarrow>
                element_loop rt data (pos2 + len)
                  (case map_of string_map field_number of
                     Some key \<Rightarrow> AList.update key (PStr (decode_string rt data pos2 len)) element
                   | None \<Rightarrow> element))
           else element)
      else element)"
  by pat_completeness auto
termination
  by (relation "measure (\<lambda>(rt, data, pos, element). length data - pos)")
    (auto intro: two_varints_decrease two_varints_decrease [where k = 0, simplified])

declare element_loop.simps [simp del]

definition decode_danmaku_element :: "('s, 'x) runtime_scheme \<Rightarrow> bytes \<Rightarrow> pydict option" where
  "decode_danmaku_element rt data =
     (let element = element_loop rt data 0 [] in if element = [] then None else Some element)"


text \<open>
  \<^verbatim>\<open>decode_danmaku_response(data)\<close>. As in the element decoder, nothing in the \<^verbatim>\<open>try\<close>
  block can raise. A sub-message that decodes to an empty dictionary adds no record
  (\<^verbatim>\<open>if danmaku_data:\<close>).
\<close>

function response_loop ::
  "('s, 'x) runtime_scheme \<Rightarrow> bytes \<Rightarrow> nat \<Rightarrow> DanmakuElement list \<Rightarrow> DanmakuElement list" where
  "response_loop rt data pos danmaku_list =
     (if pos < length data then
        (case decode_varint data pos of (field_tag, pos1) \<Rightarrow>
           let field_number = drop_bit 3 field_tag; wire_type = field_tag AND 7 in
           if field_number = 1 \<and> wire_type = 2 then
             (case decode_varint data pos1 of (len, pos2) \<Rightarrow>
                response_loop rt data (pos2 + len)
                  (case decode_danmaku_element rt (take len (drop pos2 data)) of
                     Some danmaku_data \<Rightarrow> danmaku_list @ [DanmakuElement_init danmaku_data]
                   | None \<Rightarrow> danmaku_list))
           else if wire_type = 0 then
             (case decode_varint data pos1 of (skipped, pos2) \<Rightarrow>
                response_loop rt data pos2 danmaku_list)
           else if wire_type = 2 then
             (case decode_varint data pos1 of (len, pos2) \<Rightarrow>
                response_loop rt data (pos2 + len) danmaku_list)
           else danmaku_list)
      else danmaku_list)"
  by pat_completeness auto
termination
  by (relation "measure (\<lambda>(rt, data, pos, danmaku_list). length data - pos)")
    (auto intro: two_varints_decrease two_varints_decrease [where k = 0, simplified])

declare response_loop.simps [simp del]

definition decode_danmaku_response ::
  "('s, 'x) runtime_scheme \<Rightarrow> bytes \<Rightarrow> DanmakuElement list" where
  "decode_danmaku_response rt data = response_loop rt data 0 []"

section \<open>BilibiliDanmakuDownloader\<close>

text \<open>
  The downloader object: its fingerprint pool \<^verbatim>\<open>self.id_pool\<close>, the remote end reached
  through \<^verbatim>\<open>self.session\<close>, and the trace of what the object did to the outside world
  (requests sent, delays slept), in order.
\<close>

datatype event = Get url | Sleep real

record 's downloader =
  id_pool :: "string set"
  remote :: 's
  trace :: "event list"

text \<open>\<^verbatim>\<open>__init__\<close>: an empty pool; nothing sent yet.\<close>

definition downloader_init :: "'s \<Rightarrow> 's downloader" where
  "downloader_init srv = \<lparr> id_pool = {}, remote = srv, trace = [] \<rparr>"

definition sleep :: "real \<Rightarrow> 's downloader \<Rightarrow> 's downloader" where
  "sleep secs d = d\<lparr> trace := trace d @ [Sleep secs] \<rparr>"

text \<open>\<^verbatim>\<open>self.session.get(url, timeout=10)\<close>\<close>

definition session_get ::
  "('s, 'x) runtime_scheme \<Rightarrow> 's downloader \<Rightarrow> url \<Rightarrow> response \<times> 's downloader" where
  "session_get rt d u =
     (case net rt (remote d) u of
        (r, srv) \<Rightarrow> (r, d\<lparr> remote := srv, trace := trace d @ [Get u] \<rparr>))"

text \<open>
  \<^verbatim>\<open>merge_danmaku_in_place(self, target_list, new_list)\<close>. A Python list has no attribute
  \<^verbatim>\<open>id_pool\<close>, so \<^verbatim>\<open>not hasattr(target_list, 'id_pool')\<close> is true at every call and the
  first loop always runs. The list and the pool are mutated in place; the model returns
  them, together with the exception that ended the call, if one did: when
  \<^verbatim>\<open>get_unique_id\<close> raises, what was added before stays and the rest is never looked at.
\<close>

fun pool_init ::
  "('s, 'x) runtime_scheme \<Rightarrow> DanmakuElement list \<Rightarrow> string set \<Rightarrow> error option \<times> string set" where
  "pool_init rt [] ids = (None, ids)"
| "pool_init rt (danmaku # target_rest) ids =
     (case get_unique_id rt danmaku of
        Inl e \<Rightarrow> (Some e, ids)
      | Inr unique_id \<Rightarrow> pool_init rt target_rest (insert unique_id ids))"

fun merge_new ::
  "('s, 'x) runtime_scheme \<Rightarrow> DanmakuElement list \<Rightarrow> DanmakuElement list \<Rightarrow> string set \<Rightarrow>
   error option \<times> DanmakuElement list \<times> string set" where
  "merge_new rt [] target_list ids = (None, target_list, ids)"
| "merge_new rt (danmaku # new_rest) target_list ids =
     (case get_unique_id rt danmaku of
        Inl e \<Rightarrow> (Some e, target_list, ids)
      | Inr unique_id \<Rightarrow>
          if unique_id \<notin> ids
          then merge_new rt new_rest (target_list @ [danmaku]) (insert unique_id ids)
          else merge_new rt new_rest target_list ids)"

definition merge_danmaku_in_place ::
  "('s, 'x) runtime_scheme \<Rightarrow> 's downloader \<Rightarrow> DanmakuElement list \<Rightarrow> DanmakuElement list \<Rightarrow>
   error option \<times> DanmakuElement list \<times> 's downloader" where
  "merge_danmaku_in_place rt d target_list new_list =
     (case pool_init rt target_list (id_pool d) of
        (r0, ids0) \<Rightarrow>
          (case r0 of
             Some e \<Rightarrow> (Some e, target_list, d\<lparr> id_pool := ids0 \<rparr>)
           | None \<Rightarrow>
               (case merge_new rt new_list target_list ids0 of
                  (r, target_list', ids') \<Rightarrow> (r, target_list', d\<lparr> id_pool := ids' \<rparr>))))"

subsection \<open>The live feed: \<^verbatim>\<open>get_segmented_danmaku\<close>\<close>

text \<open>
  One pass through a loop body either leaves the loop (\<^verbatim>\<open>break\<close>) or falls through to
  the next test of the loop condition.
\<close>

datatype 'a step = Stop 'a | Go 'a

text \<open>
  The body of \<^verbatim>\<open>while segment_index <= 100\<close>. The whole body is inside \<^verbatim>\<open>try\<close>, and
  \<^verbatim>\<open>except Exception\<close> breaks, so a raising \<^verbatim>\<open>session.get\<close> stops the loop, and so does
  a merge that raises, with what it had appended. The increment
  of \<^verbatim>\<open>segment_index\<close> that precedes the delay is done by \<open>segment_loop\<close>.
\<close>

definition segment_iter ::
  "('s, 'x) runtime_scheme \<Rightarrow> int \<Rightarrow> nat \<Rightarrow> DanmakuElement list \<Rightarrow> 's downloader \<Rightarrow>
   (DanmakuElement list \<times> 's downloader) step" where
  "segment_iter rt cid segment_index danmaku_list d =
     (case session_get rt d (SegUrl cid segment_index) of (response, d1) \<Rightarrow>
        (case response of
           Transport_error \<Rightarrow> Stop (danmaku_list, d1)
         | Response status payload \<Rightarrow>
             if status = 304 then Stop (danmaku_list, d1)
             else if status \<noteq> 200 then Stop (danmaku_list, d1)
             else if length payload = 0 then Stop (danmaku_list, d1)
             else
               let segment_danmaku = decode_danmaku_response rt payload in
               if segment_danmaku = [] then Stop (danmaku_list, d1)
               else
                 (case merge_danmaku_in_place rt d1 danmaku_list segment_danmaku of
                    (r, danmaku_list', d2) \<Rightarrow>
                      (case r of
                         Some e \<Rightarrow> Stop (danmaku_list', d2)
                       | None \<Rightarrow>
                           let new_count = int (length danmaku_list') - int (length danmaku_list)
                           in if new_count = 0 then Stop (danmaku_list', d2)
                              else Go (danmaku_list', sleep 0.5 d2)))))"

function segment_loop ::
  "('s, 'x) runtime_scheme \<Rightarrow> int \<Rightarrow> nat \<Rightarrow> DanmakuElement list \<Rightarrow> 's downloader \<Rightarrow>
   DanmakuElement list \<times> 's downloader" where
  "segment_loop rt cid segment_index danmaku_list d =
     (if segment_index \<le> 100 then
        (case segment_iter rt cid segment_index danmaku_list d of
           Stop r \<Rightarrow> r
         | Go (danmaku_list', d') \<Rightarrow> segment_loop rt cid (segment_index + 1) danmaku_list' d')
      else (danmaku_list, d))"
  by pat_completeness auto
termination
  by (relation "measure (\<lambda>(rt, cid, segment_index, danmaku_list, d). 101 - segment_index)")
    auto

declare segment_loop.simps [simp del]

definition get_segmented_danmaku ::
  "('s, 'x) runtime_scheme \<Rightarrow> 's downloader \<Rightarrow> int \<Rightarrow> DanmakuElement list \<times> 's downloader" where
  "get_segmented_danmaku rt d cid = segment_loop rt cid 1 [] d"

subsection \<open>Dates\<close>

text \<open>
  A naive \<^verbatim>\<open>datetime\<close> is its number of microseconds since 0001-01-01 00:00:00; the
  type ends with the year 9999, and arithmetic that leaves it raises \<^verbatim>\<open>OverflowError\<close>.
  \<^verbatim>\<open>strftime('%Y-%m-%d')\<close> is represented by the day number, which the text determines
  and is determined by.
\<close>

definition timedelta_days :: "int \<Rightarrow> int" where
  "timedelta_days n = n * 86400000000"

definition datetime_add :: "datetime \<Rightarrow> int \<Rightarrow> error + datetime" where
  "datetime_add t delta =
     (if 0 \<le> t + delta \<and> t + delta < 3652059 * 86400000000 then Inr (t + delta)
      else Inl OverflowError)"

definition strftime_date :: "datetime \<Rightarrow> int" where
  "strftime_date t = t div 86400000000"

subsection \<open>The archive: \<^verbatim>\<open>get_history_danmaku_js_style\<close>\<close>

text \<open>The variables of the loop, with the downloader object.\<close>

record 's hist_state =
  aldanmu :: "DanmakuElement list"
  ldanmu :: "DanmakuElement list"
  first_date :: int
  current_date :: datetime
  self :: "'s downloader"

text \<open>
  \<^verbatim>\<open>len(ldanmu) >= min(ondanmu, 5000) * 0.5\<close>. Python compares the integer with the
  float product exactly, and the product is exact while \<^verbatim>\<open>min(ondanmu, 5000)\<close> is above
  \<open>- 2 ^ 53\<close>; below, it is rounded but stays negative, so that the comparison with a
  length comes out the same. The model computes in the reals. It leaves out that for a
  target of \<open>- (2 ^ 1024 - 2 ^ 970)\<close> or less the conversion to a float raises
  \<^verbatim>\<open>OverflowError\<close>: \<open>float_product_defined\<close> below says when it does not.
\<close>

definition density_reached :: "int \<Rightarrow> DanmakuElement list \<Rightarrow> bool" where
  "density_reached ondanmu l \<longleftrightarrow> real (length l) \<ge> real_of_int (min ondanmu 5000) * 0.5"

definition density_low :: "int \<Rightarrow> DanmakuElement list \<Rightarrow> bool" where
  "density_low ondanmu l \<longleftrightarrow> real (length l) < real_of_int (min ondanmu 5000) * 0.5"

definition float_product_defined :: "int \<Rightarrow> bool" where
  "float_product_defined ondanmu \<longleftrightarrow> - (2 ^ 1024 - 2 ^ 970) < min ondanmu 5000"

text \<open>
  The \<^verbatim>\<open>try\<close> block of the loop body with its \<^verbatim>\<open>except Exception\<close> branch, which sets
  \<^verbatim>\<open>ldanmu = []\<close>. Three calls in it can raise: \<^verbatim>\<open>session.get\<close>, before anything is
  assigned; the merge, which then leaves in \<^verbatim>\<open>aldanmu\<close> what it had appended; and
  \<^verbatim>\<open>datetime.fromtimestamp\<close>, after the merge and the assignment of \<^verbatim>\<open>first_date\<close>.
\<close>

definition history_query ::
  "('s, 'x) runtime_scheme \<Rightarrow> int \<Rightarrow> 's hist_state \<Rightarrow> 's hist_state" where
  "history_query rt cid st =
     (case session_get rt (self st) (HistUrl (strftime_date (current_date st)) cid) of
        (response, d1) \<Rightarrow>
        (case response of
           Transport_error \<Rightarrow> st\<lparr> ldanmu := [], self := d1 \<rparr>
         | Response status payload \<Rightarrow>
             if status = 200 then
               if length payload = 0 then st\<lparr> ldanmu := [], self := d1 \<rparr>
               else
                 let batch = decode_danmaku_response rt payload in
                 if batch \<noteq> [] then
                   (case merge_danmaku_in_place rt d1 (aldanmu st) batch of
                      (r, aldanmu', d2) \<Rightarrow>
                        (case r of
                           Some e \<Rightarrow> st\<lparr> aldanmu := aldanmu', ldanmu := [], self := d2 \<rparr>
                         | None \<Rightarrow>
                             let min_ctime = min_list (map ctime batch);
                                 tfirstdate =
                                   (if first_date st \<noteq> 0 \<and> first_date st - min_ctime < 86400
                                    then min_ctime - 86400 else min_ctime)
                             in (case fromtimestamp rt tfirstdate of
                                   Some dt \<Rightarrow>
                                     st\<lparr> aldanmu := aldanmu', ldanmu := batch,
                                         first_date := tfirstdate, current_date := dt,
                                         self := d2 \<rparr>
                                 | None \<Rightarrow>
                                     st\<lparr> aldanmu := aldanmu', ldanmu := [],
                                         first_date := tfirstdate, self := d2 \<rparr>)))
                 else st\<lparr> ldanmu := [], self := d1 \<rparr>
             else if status = 412 then st\<lparr> ldanmu := [], self := d1 \<rparr>
             else st\<lparr> ldanmu := [], self := d1 \<rparr>))"

text \<open>
  The body of \<^verbatim>\<open>while current_date >= start_date\<close>. The last statement,
  \<^verbatim>\<open>current_date -= timedelta(days=1)\<close>, is outside the \<^verbatim>\<open>try\<close>.
\<close>

datatype 'a outcome = Continue 'a | Break 'a | Raise error 'a

definition history_iter ::
  "('s, 'x) runtime_scheme \<Rightarrow> int \<Rightarrow> int \<Rightarrow> 's hist_state \<Rightarrow> 's hist_state outcome" where
  "history_iter rt cid ondanmu st =
     (let st1 = (if first_date st \<noteq> 0 then st\<lparr> self := sleep 2 (self st) \<rparr> else st);
          st2 = (if first_date st1 = 0 \<or> density_reached ondanmu (ldanmu st1)
                 then history_query rt cid st1 else st1)
      in if density_low ondanmu (ldanmu st2) then Break st2
         else if first_date st2 = 0 then
           (case datetime_add (current_date st2) (- timedelta_days 1) of
              Inl e \<Rightarrow> Raise e st2
            | Inr dt \<Rightarrow> Continue (st2\<lparr> current_date := dt \<rparr>))
         else Continue st2)"

text \<open>
  The loop may run for ever (the server chooses the timestamps that move
  \<^verbatim>\<open>current_date\<close>), so it takes fuel: \<open>None\<close> is a run that needs more iterations.
\<close>

fun history_loop ::
  "nat \<Rightarrow> ('s, 'x) runtime_scheme \<Rightarrow> int \<Rightarrow> int \<Rightarrow> datetime \<Rightarrow> 's hist_state \<Rightarrow>
   (error \<times> 's hist_state + 's hist_state) option" where
  "history_loop 0 rt cid ondanmu start_date st = None"
| "history_loop (Suc fuel) rt cid ondanmu start_date st =
     (if current_date st \<ge> start_date then
        (case history_iter rt cid ondanmu st of
           Continue st' \<Rightarrow> history_loop fuel rt cid ondanmu start_date st'
         | Break st' \<Rightarrow> Some (Inr st')
         | Raise e st' \<Rightarrow> Some (Inl (e, st')))
      else Some (Inr st))"

definition get_history_danmaku_js_style ::
  "nat \<Rightarrow> ('s, 'x) runtime_scheme \<Rightarrow> 's downloader \<Rightarrow> int \<Rightarrow> datetime option \<Rightarrow> int \<Rightarrow> int \<Rightarrow>
   int \<Rightarrow> ((error + DanmakuElement list) \<times> 's downloader) option" where
  "get_history_danmaku_js_style fuel rt d cid video_date start_days end_days target_count =
     (case video_date of
        None \<Rightarrow> Some (Inr [], d)
      | Some base_date \<Rightarrow>
          (case (if end_days \<noteq> - 1 then datetime_add (now rt) (- timedelta_days 1)
                 else datetime_add (now rt) (- timedelta_days 1)) of
             Inl e \<Rightarrow> Some (Inl e, d)
           | Inr yesterday \<Rightarrow>
               (case datetime_add base_date (timedelta_days start_days) of
                  Inl e \<Rightarrow> Some (Inl e, d)
                | Inr start_date \<Rightarrow>
                    (case history_loop fuel rt cid target_count start_date
                            \<lparr> aldanmu = [], ldanmu = [], first_date = 0,
                              current_date = yesterday, self = d \<rparr> of
                       None \<Rightarrow> None
                     | Some (Inl (e, st)) \<Rightarrow> Some (Inl e, self st)
                     | Some (Inr st) \<Rightarrow> Some (Inr (aldanmu st), self st)))))"

subsection \<open>The orchestrator\<close>

text \<open>\<^verbatim>\<open>get_current_danmaku_info\<close>: every return path gives the empty list as sample.\<close>

definition get_current_danmaku_info ::
  "('s, 'x) runtime_scheme \<Rightarrow> 's downloader \<Rightarrow> int \<Rightarrow>
   (int \<times> DanmakuElement list) \<times> 's downloader" where
  "get_current_danmaku_info rt d cid =
     (case session_get rt d (SegUrl cid 1) of (response, d1) \<Rightarrow>
        (case response of
           Transport_error \<Rightarrow> ((5000, []), d1)
         | Response status payload \<Rightarrow>
             if status = 200 \<and> length payload > 0 then
               let first_segment = decode_danmaku_response rt payload in
               if first_segment \<noteq> [] then ((int (length first_segment) * 20, []), d1)
               else ((5000, []), d1)
             else ((5000, []), d1)))"

text \<open>
  Step 4 of \<^verbatim>\<open>get_complete_danmaku_js_style\<close>: the lists are merged into a fresh list
  with a fresh local pool; the inner loop is the second loop of the merge. It is not
  inside a \<^verbatim>\<open>try\<close>.
\<close>

fun merge_all_loop ::
  "('s, 'x) runtime_scheme \<Rightarrow> DanmakuElement list list \<Rightarrow> DanmakuElement list \<Rightarrow> string set \<Rightarrow>
   error + DanmakuElement list" where
  "merge_all_loop rt [] merged_danmaku ids = Inr merged_danmaku"
| "merge_all_loop rt (danmaku_list # later_lists) merged_danmaku ids =
     (case merge_new rt danmaku_list merged_danmaku ids of
        (r, merged_danmaku', ids') \<Rightarrow>
          (case r of
             Some e \<Rightarrow> Inl e
           | None \<Rightarrow> merge_all_loop rt later_lists merged_danmaku' ids'))"

definition merge_all ::
  "('s, 'x) runtime_scheme \<Rightarrow> DanmakuElement list list \<Rightarrow> error + DanmakuElement list" where
  "merge_all rt all_danmaku_lists = merge_all_loop rt all_danmaku_lists [] {}"

definition get_complete_danmaku_js_style ::
  "nat \<Rightarrow> ('s, 'x) runtime_scheme \<Rightarrow> 's downloader \<Rightarrow> int \<Rightarrow> datetime option \<Rightarrow> int \<Rightarrow>
   int option \<Rightarrow> ((error + DanmakuElement list) \<times> 's downloader) option" where
  "get_complete_danmaku_js_style fuel rt d cid video_date start_days end_days_opt =
     (let end_days = (case end_days_opt of
                        None \<Rightarrow> (if video_date \<noteq> None then 1 else - 1)
                      | Some e \<Rightarrow> e)
      in case get_current_danmaku_info rt d cid of ((maxlimit, current_danmaku), d1) \<Rightarrow>
         let lists0 = (if current_danmaku \<noteq> [] then [current_danmaku] else []) in
         (case get_segmented_danmaku rt d1 cid of (segmented_danmaku, d2) \<Rightarrow>
            let lists1 = (if segmented_danmaku \<noteq> [] then lists0 @ [segmented_danmaku]
                          else lists0) in
            if video_date \<noteq> None \<and> maxlimit > 0 then
              (case get_history_danmaku_js_style fuel rt d2 cid video_date start_days
                      end_days maxlimit of
                 None \<Rightarrow> None
               | Some (Inl e, d3) \<Rightarrow> Some (Inl e, d3)
               | Some (Inr history_danmaku, d3) \<Rightarrow>
                   Some (merge_all rt
                          (if history_danmaku \<noteq> [] then lists1 @ [history_danmaku]
                           else lists1), d3))
            else Some (merge_all rt lists1, d2)))"

text \<open>
  \<^verbatim>\<open>save_danmaku_xml\<close> sorts the list by \<^verbatim>\<open>progress\<close> before writing it; Python's sort is
  stable, as \<open>sort_key\<close> is.
\<close>

definition save_danmaku_xml_order :: "DanmakuElement list \<Rightarrow> DanmakuElement list" where
  "save_danmaku_xml_order danmaku_list = sort_key progress danmaku_list"

section \<open>Vocabulary of the properties\<close>

text \<open>
  The text of a record's fingerprint, which \<^verbatim>\<open>get_unique_id\<close> returns whenever it returns;
  and the step of the merge on records whose fingerprints can be rendered.
\<close>

definition fingerprint :: "('s, 'x) runtime_scheme \<Rightarrow> DanmakuElement \<Rightarrow> string" where
  "fingerprint rt d =
     str_int (if progress d = 0 then 1 else progress d) @ ''_'' @
     str_int (int (length (content d))) @ ''_'' @
     str_int (py_hash rt (midHash d) mod 2 ^ 32)"

definition merge_step ::
  "('s, 'x) runtime_scheme \<Rightarrow> DanmakuElement \<Rightarrow> DanmakuElement list \<times> string set \<Rightarrow>
   DanmakuElement list \<times> string set" where
  "merge_step rt danmaku = (\<lambda>(target_list, pool).
     if fingerprint rt danmaku \<notin> pool
     then (target_list @ [danmaku], insert (fingerprint rt danmaku) pool)
     else (target_list, pool))"

text \<open>
  What one completed round of the segment loop leaves in the trace; the requests of a
  trace, in order; and the state an iteration of the archive loop ends in.
\<close>

definition sent :: "int \<Rightarrow> nat \<Rightarrow> event list" where
  "sent cid j = [Get (SegUrl cid j), Sleep 0.5]"

definition requests_of :: "event list \<Rightarrow> url list" where
  "requests_of evs = concat (map (\<lambda>e. case e of Get u \<Rightarrow> [u] | Sleep t \<Rightarrow> []) evs)"

definition outcome_state :: "'a outcome \<Rightarrow> 'a" where
  "outcome_state out = (case out of Continue st \<Rightarrow> st | Break st \<Rightarrow> st | Raise e st \<Rightarrow> st)"

text \<open>
  The invariant of an accumulator \<open>L\<close> fed by the merge alone, in a pool that held \<open>P0\<close>
  when \<open>L\<close> was empty.
\<close>

definition pool_inv ::
  "('s, 'x) runtime_scheme \<Rightarrow> string set \<Rightarrow> DanmakuElement list \<Rightarrow> string set \<Rightarrow> bool" where
  "pool_inv rt P0 L P \<longleftrightarrow>
     distinct (map (fingerprint rt) L) \<and> P = P0 \<union> fingerprint rt ` set L
     \<and> P0 \<inter> fingerprint rt ` set L = {}
     \<and> (\<forall>x \<in> set L. get_unique_id rt x = Inr (fingerprint rt x))"

text \<open>
  The sentence of the specification for a run without publish date, in its words: the
  output is the deduplicated, offset-sorted union of the probe sample and the
  live-segment list.
\<close>

definition spec_output_without_history ::
  "('s, 'x) runtime_scheme \<Rightarrow> DanmakuElement list \<Rightarrow> DanmakuElement list \<Rightarrow> DanmakuElement list" where
  "spec_output_without_history rt probe_sample live =
     sort_key progress (fst (fold (merge_step rt) (probe_sample @ live) ([], {})))"

text \<open>
  A complete varint: every byte but the last has the continuation bit, the last has not.
\<close>

definition complete_varint :: "bytes \<Rightarrow> bool" where
  "complete_varint bs \<longleftrightarrow>
     bs \<noteq> [] \<and> (\<forall>b \<in> set (butlast bs). b AND 0x80 \<noteq> 0) \<and> last bs AND 0x80 = 0"

definition varint_value :: "bytes \<Rightarrow> nat" where
  "varint_value bs = fst (decode_varint bs 0)"

text \<open>
  The fields of a message as the sender wrote them: a tag and a varint, or a tag, a
  length and a run of that many bytes.
\<close>

datatype wire_field = Varint_field bytes bytes | Delimited_field bytes bytes bytes

fun field_bytes :: "wire_field \<Rightarrow> bytes" where
  "field_bytes (Varint_field t v) = t @ v"
| "field_bytes (Delimited_field t l s) = t @ l @ s"

fun well_formed :: "wire_field \<Rightarrow> bool" where
  "well_formed (Varint_field t v) \<longleftrightarrow>
     complete_varint t \<and> varint_value t AND 7 = 0 \<and> complete_varint v"
| "well_formed (Delimited_field t l s) \<longleftrightarrow>
     complete_varint t \<and> varint_value t AND 7 = 2 \<and> complete_varint l
     \<and> varint_value l = length s"

text \<open>What a field of a top-level message contributes, and what a field of a record stores.\<close>

fun records_of :: "('s, 'x) runtime_scheme \<Rightarrow> wire_field \<Rightarrow> DanmakuElement list" where
  "records_of rt (Varint_field t v) = []"
| "records_of rt (Delimited_field t l s) =
     (if drop_bit 3 (varint_value t) = 1 then
        (case decode_danmaku_element rt s of
           Some danmaku_data \<Rightarrow> [DanmakuElement_init danmaku_data]
         | None \<Rightarrow> [])
      else [])"

fun element_store :: "('s, 'x) runtime_scheme \<Rightarrow> wire_field \<Rightarrow> pydict \<Rightarrow> pydict" where
  "element_store rt (Varint_field t v) element =
     (case map_of field_map (drop_bit 3 (varint_value t)) of
        Some key \<Rightarrow> AList.update key (PInt (int (varint_value v))) element
      | None \<Rightarrow> element)"
| "element_store rt (Delimited_field t l s) element =
     (case map_of string_map (drop_bit 3 (varint_value t)) of
        Some key \<Rightarrow> AList.update key (PStr (decode_string rt s 0 (length s))) element
      | None \<Rightarrow> element)"

section \<open>A concrete runtime for evaluation\<close>

text \<open>
  An instance of the runtime parameters on which the functions can be run: the codec
  is CPython's on ASCII bytes (which is all the strings of the concrete payloads hold), the
  clock is fixed, \<^verbatim>\<open>fromtimestamp\<close> is that of a machine on UTC, and the hash is one
  fixed function on strings (CPython draws one per process); the digit limit is the
  interpreter's default.
\<close>

definition test_runtime :: "('s \<Rightarrow> url \<Rightarrow> response \<times> 's) \<Rightarrow> 's runtime" where
  "test_runtime srv =
     \<lparr> py_hash = (\<lambda>s. int (sum_list s)),
       int_max_str_digits = 4300,
       utf8_strict = (\<lambda>bs. if list_all (\<lambda>b. b < 0x80) bs then Some (map unat bs) else None),
       utf8_ignore = (\<lambda>bs. map unat (filter (\<lambda>b. b < 0x80) bs)),
       now = 63839750400000000,
       fromtimestamp = (\<lambda>ts. if - 62135596800 \<le> ts \<and> ts < 253402300800
                              then Some ((ts + 62135596800) * 1000000) else None),
       net = srv \<rparr>"

definition no_server :: "unit \<Rightarrow> url \<Rightarrow> response \<times> unit" where
  "no_server s u = (Transport_error, s)"

definition dm :: "int \<Rightarrow> int \<Rightarrow> pystr \<Rightarrow> DanmakuElement" where
  "dm p c txt = DanmakuElement_init
     [(''progress'', PInt p), (''ctime'', PInt c), (''content'', PStr txt)]"

definition fresh_server :: "nat \<Rightarrow> url \<Rightarrow> response \<times> nat" where
  "fresh_server n u = (Response 200 [0x0A, 0x02, 0x10, word_of_nat (Suc n)], Suc n)"

definition not_modified_server :: "unit \<Rightarrow> url \<Rightarrow> response \<times> unit" where
  "not_modified_server s u = (Response 304 [], s)"

definition two_record_payload :: bytes where
  "two_record_payload =
     [0x0A, 0x04, 0x10, 0x05, 0x40, 0x64, 0x0A, 0x04, 0x10, 0x07, 0x40, 0x32]"

definition archive_server :: "unit \<Rightarrow> url \<Rightarrow> response \<times> unit" where
  "archive_server s u = (Response 200 two_record_payload, s)"

definition probe_only_server :: "nat \<Rightarrow> url \<Rightarrow> response \<times> nat" where
  "probe_only_server n u =
     (if n = 0 then Response 200 [0x0A, 0x02, 0x10, 0x01] else Response 304 [], Suc n)"

definition session_server :: "unit \<Rightarrow> url \<Rightarrow> response \<times> unit" where
  "session_server s u =
     (case u of
        SegUrl cid i \<Rightarrow> if i = 1 then Response 200 [0x0A, 0x02, 0x10, 0x01] else Response 304 []
      | HistUrl date cid \<Rightarrow> Response 200 [0x0A, 0x04, 0x10, 0x02, 0x40, 0x32], s)"

section \<open>Auxiliary lemmas\<close>

subsection \<open>The merge\<close>

lemma fold_insert_uid:
  "fold (\<lambda>danmaku. insert (f danmaku)) xs P = P \<union> f ` set xs"
  by (induction xs arbitrary: P) auto

text \<open>The step of the merge, folded over a list, in closed form.\<close>

lemma fold_merge_step:
  "\<exists>ys. fold (merge_step rt) xs (T, P) = (T @ ys, P \<union> fingerprint rt ` set xs)
     \<and> subseq ys xs \<and> distinct (map (fingerprint rt) ys)
     \<and> fingerprint rt ` set ys = fingerprint rt ` set xs - P"
proof (induction xs arbitrary: T P)
  case Nil
  show ?case by simp
next
  case (Cons x xs)
  show ?case
  proof (cases "fingerprint rt x \<in> P")
    case True
    from Cons.IH [of T P] obtain ys where
      ys: "fold (merge_step rt) xs (T, P) = (T @ ys, P \<union> fingerprint rt ` set xs)"
        "subseq ys xs" "distinct (map (fingerprint rt) ys)"
        "fingerprint rt ` set ys = fingerprint rt ` set xs - P"
      by blast
    from True ys have "fold (merge_step rt) (x # xs) (T, P)
        = (T @ ys, P \<union> fingerprint rt ` set (x # xs))"
      by (auto simp: merge_step_def)
    moreover from ys(2) have "subseq ys (x # xs)"
      by (rule list_emb_Cons)
    moreover from True ys
    have "fingerprint rt ` set ys = fingerprint rt ` set (x # xs) - P"
      by auto
    ultimately show ?thesis
      using ys(3) by blast
  next
    case False
    from Cons.IH [of "T @ [x]" "insert (fingerprint rt x) P"] obtain ys where
      ys: "fold (merge_step rt) xs (T @ [x], insert (fingerprint rt x) P)
            = ((T @ [x]) @ ys, insert (fingerprint rt x) P \<union> fingerprint rt ` set xs)"
        "subseq ys xs" "distinct (map (fingerprint rt) ys)"
        "fingerprint rt ` set ys
           = fingerprint rt ` set xs - insert (fingerprint rt x) P"
      by blast
    from False ys(1) have "fold (merge_step rt) (x # xs) (T, P)
        = (T @ (x # ys), P \<union> fingerprint rt ` set (x # xs))"
      by (simp add: merge_step_def)
    moreover from ys(2) have "subseq (x # ys) (x # xs)"
      by simp
    moreover from ys(3,4) have "distinct (map (fingerprint rt) (x # ys))"
      by auto
    moreover from False ys(4)
    have "fingerprint rt ` set (x # ys) = fingerprint rt ` set (x # xs) - P"
      by auto
    ultimately show ?thesis
      by blast
  qed
qed

text \<open>The fingerprint that \<^verbatim>\<open>get_unique_id\<close> returns, and when it raises.\<close>

lemma get_unique_id_Inr: "get_unique_id rt x = Inr u \<Longrightarrow> u = fingerprint rt x"
  by (auto simp: get_unique_id_def fingerprint_def format_int_def split: sum.splits if_splits)

lemma get_unique_id_cases:
  obtains e where "get_unique_id rt x = Inl e" | "get_unique_id rt x = Inr (fingerprint rt x)"
  using get_unique_id_Inr [of rt x] by (cases "get_unique_id rt x") auto

lemma format_int_small:
  "\<not> (0 < int_max_str_digits rt \<and> int_max_str_digits rt < int (length (str_nat (nat \<bar>i\<bar>))))
     \<Longrightarrow> format_int rt i = Inr (str_int i)"
  by (simp add: format_int_def)

text \<open>The first loop of the merge.\<close>

lemma pool_init_prefix:
  "pool_init rt T P = (r, P') \<Longrightarrow>
     \<exists>Tp. prefix Tp T \<and> P' = P \<union> fingerprint rt ` set Tp
       \<and> (\<forall>x \<in> set Tp. get_unique_id rt x = Inr (fingerprint rt x))
       \<and> (r = None \<longrightarrow> Tp = T)"
proof (induction T arbitrary: P)
  case Nil
  then show ?case by auto
next
  case (Cons x T)
  show ?case
  proof (cases rule: get_unique_id_cases [of rt x])
    case (1 e)
    with Cons.prems have "r = Some e" "P' = P"
      by simp_all
    then show ?thesis
      by (intro exI [of _ "[]"]) simp
  next
    case 2
    with Cons.prems have "pool_init rt T (insert (fingerprint rt x) P) = (r, P')"
      by simp
    from Cons.IH [OF this] obtain Tp where
      "prefix Tp T" "P' = insert (fingerprint rt x) P \<union> fingerprint rt ` set Tp"
      "\<forall>x \<in> set Tp. get_unique_id rt x = Inr (fingerprint rt x)" "r = None \<longrightarrow> Tp = T"
      by blast
    with 2 show ?thesis
      by (intro exI [of _ "x # Tp"]) auto
  qed
qed

lemma pool_init_known:
  "\<forall>x \<in> set T. get_unique_id rt x = Inr (fingerprint rt x) \<and> fingerprint rt x \<in> P
     \<Longrightarrow> pool_init rt T P = (None, P)"
  by (induction T) (simp_all add: insert_absorb)

lemma pool_init_mono: "pool_init rt T P = (r, P') \<Longrightarrow> P \<subseteq> P'"
  using pool_init_prefix [of rt T P r P'] by auto

lemma pool_init_absorb: "pool_init rt T P = (r, P') \<Longrightarrow> pool_init rt T P' = (r, P')"
proof (induction T arbitrary: P)
  case Nil
  then show ?case by simp
next
  case (Cons x T)
  show ?case
  proof (cases rule: get_unique_id_cases [of rt x])
    case (1 e)
    with Cons.prems show ?thesis
      by simp
  next
    case 2
    with Cons.prems have n: "pool_init rt T (insert (fingerprint rt x) P) = (r, P')"
      by simp
    from pool_init_mono [OF n] have "insert (fingerprint rt x) P' = P'"
      by auto
    with 2 Cons.IH [OF n] show ?thesis
      by simp
  qed
qed

text \<open>
  The second loop of the merge: it is the fold of the step over the records before the
  first one whose fingerprint cannot be rendered.
\<close>

lemma merge_new_prefix:
  "merge_new rt X T P = (r, T', P') \<Longrightarrow>
     \<exists>Xp. prefix Xp X \<and> (\<forall>x \<in> set Xp. get_unique_id rt x = Inr (fingerprint rt x))
       \<and> fold (merge_step rt) Xp (T, P) = (T', P')
       \<and> (r = None \<longrightarrow> Xp = X)
       \<and> (\<forall>e. r = Some e \<longrightarrow> (\<exists>x. prefix (Xp @ [x]) X \<and> get_unique_id rt x = Inl e))"
proof (induction X arbitrary: T P)
  case Nil
  then show ?case by auto
next
  case (Cons x X)
  show ?case
  proof (cases rule: get_unique_id_cases [of rt x])
    case (1 e)
    with Cons.prems have "r = Some e" "T' = T" "P' = P"
      by simp_all
    with 1 show ?thesis
      by (intro exI [of _ "[]"]) auto
  next
    case 2
    let ?T1 = "if fingerprint rt x \<notin> P then T @ [x] else T"
    let ?P1 = "if fingerprint rt x \<notin> P then insert (fingerprint rt x) P else P"
    from 2 Cons.prems have "merge_new rt X ?T1 ?P1 = (r, T', P')"
      by (simp split: if_splits)
    from Cons.IH [OF this] obtain Xp where
      Xp: "prefix Xp X" "\<forall>x \<in> set Xp. get_unique_id rt x = Inr (fingerprint rt x)"
        "fold (merge_step rt) Xp (?T1, ?P1) = (T', P')" "r = None \<longrightarrow> Xp = X"
        "\<forall>e. r = Some e \<longrightarrow> (\<exists>y. prefix (Xp @ [y]) X \<and> get_unique_id rt y = Inl e)"
      by blast
    have "merge_step rt x (T, P) = (?T1, ?P1)"
      by (simp add: merge_step_def)
    with Xp(3) have "fold (merge_step rt) (x # Xp) (T, P) = (T', P')"
      by simp
    with Xp(1,2,4,5) 2 show ?thesis
      by (intro exI [of _ "x # Xp"]) auto
  qed
qed

lemma merge_new_renderable:
  "\<forall>x \<in> set X. get_unique_id rt x = Inr (fingerprint rt x) \<Longrightarrow>
     merge_new rt X T P = (None, fold (merge_step rt) X (T, P))"
  by (induction X arbitrary: T P) (simp_all add: merge_step_def)

lemma merge_new_mono: "merge_new rt X T P = (r, T', P') \<Longrightarrow> P \<subseteq> P'"
proof -
  assume "merge_new rt X T P = (r, T', P')"
  from merge_new_prefix [OF this] obtain Xp where
    "fold (merge_step rt) Xp (T, P) = (T', P')"
    by blast
  with fold_merge_step [of rt Xp T P] show ?thesis
    by auto
qed

lemma merge_new_again:
  "merge_new rt X T P = (r, T', P') \<Longrightarrow> merge_new rt X T' P' = (r, T', P')"
proof (induction X arbitrary: T P)
  case Nil
  then show ?case by simp
next
  case (Cons x X)
  show ?case
  proof (cases rule: get_unique_id_cases [of rt x])
    case (1 e)
    with Cons.prems show ?thesis
      by simp
  next
    case 2
    let ?T1 = "if fingerprint rt x \<notin> P then T @ [x] else T"
    let ?P1 = "if fingerprint rt x \<notin> P then insert (fingerprint rt x) P else P"
    from 2 Cons.prems have n: "merge_new rt X ?T1 ?P1 = (r, T', P')"
      by (simp split: if_splits)
    from merge_new_mono [OF n] have "fingerprint rt x \<in> P'"
      by (auto split: if_splits)
    with 2 Cons.IH [OF n] show ?thesis
      by simp
  qed
qed

lemma merge_new_append:
  "merge_new rt (X @ Y) T P
     = (case merge_new rt X T P of
          (r, T', P') \<Rightarrow> (case r of Some e \<Rightarrow> (Some e, T', P') | None \<Rightarrow> merge_new rt Y T' P'))"
proof (induction X arbitrary: T P)
  case Nil
  show ?case by simp
next
  case (Cons x X)
  show ?case
    by (cases rule: get_unique_id_cases [of rt x]) (simp_all add: Cons.IH)
qed

text \<open>The merge as a whole.\<close>

lemma merge_result:
  assumes "merge_danmaku_in_place rt d T X = (r, T', d')"
  shows "\<exists>Tp Xp ys. prefix Tp T \<and> prefix Xp X \<and> T' = T @ ys \<and> subseq ys Xp
     \<and> distinct (map (fingerprint rt) ys)
     \<and> fingerprint rt ` set ys
         = fingerprint rt ` set Xp - (id_pool d \<union> fingerprint rt ` set Tp)
     \<and> d' = d\<lparr> id_pool := id_pool d \<union> fingerprint rt ` set Tp \<union> fingerprint rt ` set Xp \<rparr>
     \<and> (\<forall>y \<in> set ys. get_unique_id rt y = Inr (fingerprint rt y))
     \<and> (r = None \<longrightarrow> Tp = T \<and> Xp = X)"
proof -
  obtain r0 P0 where i: "pool_init rt T (id_pool d) = (r0, P0)"
    by (cases "pool_init rt T (id_pool d)")
  from pool_init_prefix [OF i] obtain Tp where
    Tp: "prefix Tp T" "P0 = id_pool d \<union> fingerprint rt ` set Tp" "r0 = None \<longrightarrow> Tp = T"
    by blast
  show ?thesis
  proof (cases r0)
    case (Some e)
    with assms i have "r = Some e" "T' = T" "d' = d\<lparr> id_pool := P0 \<rparr>"
      by (simp_all add: merge_danmaku_in_place_def)
    with Tp show ?thesis
      by (intro exI [of _ Tp] exI [of _ "[]"]) simp
  next
    case None
    obtain P' where m: "merge_new rt X T P0 = (r, T', P')" and d': "d' = d\<lparr> id_pool := P' \<rparr>"
      using assms i None
      by (cases "merge_new rt X T P0") (auto simp: merge_danmaku_in_place_def)
    from merge_new_prefix [OF m] obtain Xp where
      Xp: "prefix Xp X" "\<forall>x \<in> set Xp. get_unique_id rt x = Inr (fingerprint rt x)"
        "fold (merge_step rt) Xp (T, P0) = (T', P')" "r = None \<longrightarrow> Xp = X"
      by blast
    from fold_merge_step [of rt Xp T P0] Xp(3) obtain ys where
      ys: "T' = T @ ys" "P' = P0 \<union> fingerprint rt ` set Xp" "subseq ys Xp"
        "distinct (map (fingerprint rt) ys)"
        "fingerprint rt ` set ys = fingerprint rt ` set Xp - P0"
      by auto
    have "set ys \<subseteq> set Xp"
      using ys(3) by (auto elim: list_emb_set)
    with Xp(2) have "\<forall>y \<in> set ys. get_unique_id rt y = Inr (fingerprint rt y)"
      by auto
    with Tp Xp(1,4) ys d' None show ?thesis
      by (intro exI [of _ Tp] exI [of _ Xp] exI [of _ ys]) simp
  qed
qed

lemma merge_keeps_world:
  "merge_danmaku_in_place rt d T X = (r, T', d') \<Longrightarrow> trace d' = trace d \<and> remote d' = remote d"
  using merge_result [of rt d T X r T' d'] by auto

subsection \<open>Traces of the segment loop\<close>

lemma session_get_trace:
  "session_get rt d u = (r, d1) \<Longrightarrow>
     trace d1 = trace d @ [Get u] \<and> id_pool d1 = id_pool d \<and> r = fst (net rt (remote d) u)"
  by (auto simp: session_get_def split: prod.splits)

lemma segment_iter_Stop_trace:
  assumes "segment_iter rt cid i L d = Stop (L', d')"
  shows "trace d' = trace d @ [Get (SegUrl cid i)]"
proof -
  obtain r d1 where g: "session_get rt d (SegUrl cid i) = (r, d1)"
    by (cases "session_get rt d (SegUrl cid i)")
  then have t: "trace d1 = trace d @ [Get (SegUrl cid i)]"
    by (simp add: session_get_trace)
  show ?thesis
    using assms g t
    by (auto simp: segment_iter_def Let_def sleep_def
        split: response.splits if_splits prod.splits option.splits dest: merge_keeps_world)
qed

lemma segment_iter_Go_trace:
  assumes "segment_iter rt cid i L d = Go (L', d')"
  shows "trace d' = trace d @ [Get (SegUrl cid i), Sleep 0.5]"
proof -
  obtain r d1 where g: "session_get rt d (SegUrl cid i) = (r, d1)"
    by (cases "session_get rt d (SegUrl cid i)")
  then have t: "trace d1 = trace d @ [Get (SegUrl cid i)]"
    by (simp add: session_get_trace)
  show ?thesis
    using assms g t
    by (auto simp: segment_iter_def Let_def sleep_def
        split: response.splits if_splits prod.splits option.splits dest: merge_keeps_world)
qed

lemma segment_loop_trace:
  "i \<le> 100 \<Longrightarrow> segment_loop rt cid i L d = (L', d') \<Longrightarrow>
     \<exists>k tl. i \<le> k \<and> k \<le> 100 \<and> (tl = [] \<or> tl = [Sleep 0.5] \<and> k = 100) \<and>
       trace d' = trace d @ concat (map (sent cid) [i..<k]) @ [Get (SegUrl cid k)] @ tl"
proof (induction rt cid i L d rule: segment_loop.induct)
  case (1 rt cid i L d)
  show ?case
  proof (cases "segment_iter rt cid i L d")
    case (Stop r)
    with "1.prems" have r: "r = (L', d')"
      by (subst (asm) segment_loop.simps) simp
    with Stop have "trace d' = trace d @ [Get (SegUrl cid i)]"
      by (simp add: segment_iter_Stop_trace)
    then have "trace d' = trace d @ concat (map (sent cid) [i..<i]) @ [Get (SegUrl cid i)] @ []"
      by simp
    with "1.prems"(1) show ?thesis
      by blast
  next
    case (Go r)
    obtain L1 d1 where r: "r = (L1, d1)"
      by (cases r)
    with Go have t1: "trace d1 = trace d @ sent cid i"
      by (simp add: segment_iter_Go_trace sent_def)
    from "1.prems" Go r have next_call: "segment_loop rt cid (i + 1) L1 d1 = (L', d')"
      by (subst (asm) segment_loop.simps) simp
    show ?thesis
    proof (cases "i + 1 \<le> 100")
      case True
      from "1.IH" [OF "1.prems"(1) Go r [symmetric] True next_call] obtain k tl where
        k: "i + 1 \<le> k" "k \<le> 100" "tl = [] \<or> tl = [Sleep 0.5] \<and> k = 100"
          "trace d' = trace d1 @ concat (map (sent cid) [i + 1..<k]) @ [Get (SegUrl cid k)] @ tl"
        by blast
      from k(1) have "[i..<k] = i # [i + 1..<k]"
        by (simp add: upt_conv_Cons)
      with k(4) t1 have "trace d' = trace d @ concat (map (sent cid) [i..<k])
          @ [Get (SegUrl cid k)] @ tl"
        by simp
      with k(1,2,3) show ?thesis
        by (intro exI [of _ k] exI [of _ tl]) simp
    next
      case False
      with "1.prems"(1) have i: "i = 100"
        by simp
      from False next_call have "d' = d1"
        by (subst (asm) segment_loop.simps) simp
      with t1 i have "trace d' = trace d @ concat (map (sent cid) [i..<100])
          @ [Get (SegUrl cid 100)] @ [Sleep 0.5]"
        by (simp add: sent_def)
      with i show ?thesis
        by (intro exI [of _ 100] exI [of _ "[Sleep 0.5]"]) simp
    qed
  qed
qed

subsection \<open>The archive loop\<close>

lemma requests_of_append [simp]: "requests_of (xs @ ys) = requests_of xs @ requests_of ys"
  by (simp add: requests_of_def)

lemma requests_of_simps [simp]:
  "requests_of [] = []"
  "requests_of (Get u # evs) = u # requests_of evs"
  "requests_of (Sleep t # evs) = requests_of evs"
  by (simp_all add: requests_of_def)

text \<open>What one archive query does, by the answer it gets.\<close>

lemma history_query_failed:
  assumes "session_get rt (self st) (HistUrl (strftime_date (current_date st)) cid) = (r, d1)"
    and "r = Transport_error \<or> (\<exists>s p. r = Response s p \<and> (s \<noteq> 200 \<or> p = []
           \<or> decode_danmaku_response rt p = []))"
  shows "history_query rt cid st = st\<lparr> ldanmu := [], self := d1 \<rparr>"
  using assms by (auto simp: history_query_def Let_def)

lemma history_query_batch:
  assumes "session_get rt (self st) (HistUrl (strftime_date (current_date st)) cid)
      = (Response 200 p, d1)"
    and "p \<noteq> []" and "decode_danmaku_response rt p = batch" and "batch \<noteq> []"
    and "merge_danmaku_in_place rt d1 (aldanmu st) batch = (None, A, d2)"
    and "b = (if first_date st \<noteq> 0 \<and> first_date st - min_list (map ctime batch) < 86400
              then min_list (map ctime batch) - 86400 else min_list (map ctime batch))"
  shows "history_query rt cid st =
     (case fromtimestamp rt b of
        Some dt \<Rightarrow> st\<lparr> aldanmu := A, ldanmu := batch, first_date := b, current_date := dt,
                       self := d2 \<rparr>
      | None \<Rightarrow> st\<lparr> aldanmu := A, ldanmu := [], first_date := b, self := d2 \<rparr>)"
  using assms(1-5) unfolding assms(6) by (simp add: history_query_def Let_def)

lemma history_query_merge_raised:
  assumes "session_get rt (self st) (HistUrl (strftime_date (current_date st)) cid)
      = (Response 200 p, d1)"
    and "decode_danmaku_response rt p \<noteq> []"
    and "merge_danmaku_in_place rt d1 (aldanmu st) (decode_danmaku_response rt p)
      = (Some e, A, d2)"
  shows "history_query rt cid st = st\<lparr> aldanmu := A, ldanmu := [], self := d2 \<rparr>"
proof -
  have "p \<noteq> []"
    using assms(2) by (auto simp: decode_danmaku_response_def response_loop.simps)
  with assms show ?thesis
    by (simp add: history_query_def Let_def)
qed

lemma history_query_trace:
  "trace (self (history_query rt cid st))
     = trace (self st) @ [Get (HistUrl (strftime_date (current_date st)) cid)]"
proof -
  obtain r d1 where g: "session_get rt (self st) (HistUrl (strftime_date (current_date st)) cid)
      = (r, d1)"
    by (cases "session_get rt (self st) (HistUrl (strftime_date (current_date st)) cid)")
  then have t: "trace d1 = trace (self st) @ [Get (HistUrl (strftime_date (current_date st)) cid)]"
    by (simp add: session_get_trace)
  show ?thesis
    using g t
    by (auto simp: history_query_def Let_def
        split: response.splits prod.splits option.splits dest: merge_keeps_world)
qed

lemma history_query_ldanmu:
  assumes "session_get rt (self st) (HistUrl (strftime_date (current_date st)) cid)
      = (Response 200 p, d1)"
  shows "ldanmu (history_query rt cid st) = decode_danmaku_response rt p
       \<or> ldanmu (history_query rt cid st) = []"
  using assms
  by (auto simp: history_query_def Let_def split: prod.splits option.splits)

lemma decode_two_record_payload:
  "decode_danmaku_response (test_runtime srv) two_record_payload = [dm 5 100 [], dm 7 50 []]"
  by code_simp

lemma history_iter_requests:
  "requests_of (trace (self (outcome_state (history_iter rt cid ondanmu st))))
     = requests_of (trace (self st))
       @ (if first_date st = 0 \<or> density_reached ondanmu (ldanmu st)
          then [HistUrl (strftime_date (current_date st)) cid] else [])"
  by (auto simp: history_iter_def Let_def outcome_state_def history_query_trace sleep_def
      split: sum.splits)

lemma history_iter_break_iff:
  "(\<exists>st'. history_iter rt cid ondanmu st = Break st')
     \<longleftrightarrow> density_low ondanmu (ldanmu (outcome_state (history_iter rt cid ondanmu st)))"
  by (auto simp: history_iter_def Let_def outcome_state_def split: sum.splits)

lemma history_iter_skip_breaks:
  assumes "\<not> (first_date st = 0 \<or> density_reached ondanmu (ldanmu st))"
  shows "\<exists>st'. history_iter rt cid ondanmu st = Break st'"
proof -
  from assms have "density_low ondanmu (ldanmu st)"
    by (simp add: density_low_def density_reached_def)
  with assms show ?thesis
    by (simp add: history_iter_def Let_def)
qed

lemma history_first_sparse_batch:
  assumes y: "datetime_add (now rt) (- timedelta_days 1) = Inr y"
    and s: "datetime_add base (timedelta_days sd) = Inr s"
    and entered: "s \<le> y"
    and answer: "fst (net rt (remote d) (HistUrl (strftime_date y) cid)) = Response 200 p"
    and sparse: "density_low tc (decode_danmaku_response rt p)"
  shows "\<exists>L d'. get_history_danmaku_js_style (Suc fuel) rt d cid (Some base) sd ed tc
             = Some (Inr L, d')
           \<and> requests_of (trace d') = requests_of (trace d) @ [HistUrl (strftime_date y) cid]"
proof -
  define st where "st = \<lparr> aldanmu = [], ldanmu = [], first_date = 0, current_date = y,
    self = d \<rparr>"
  obtain d1 where g: "session_get rt (self st) (HistUrl (strftime_date (current_date st)) cid)
      = (Response 200 p, d1)"
    using answer by (cases "net rt (remote d) (HistUrl (strftime_date y) cid)")
      (simp add: session_get_def st_def)
  from sparse have low0: "density_low tc []"
    by (simp add: density_low_def)
  from history_query_ldanmu [OF g] sparse low0
  have low: "density_low tc (ldanmu (history_query rt cid st))"
    by auto
  have it: "history_iter rt cid tc st = Break (history_query rt cid st)"
    using low by (simp add: history_iter_def Let_def st_def)
  have "history_loop (Suc fuel) rt cid tc s st = Some (Inr (history_query rt cid st))"
    using entered it by (simp add: st_def)
  then have "get_history_danmaku_js_style (Suc fuel) rt d cid (Some base) sd ed tc
      = Some (Inr (aldanmu (history_query rt cid st)), self (history_query rt cid st))"
    using y s by (simp add: get_history_danmaku_js_style_def st_def)
  moreover have "requests_of (trace (self (history_query rt cid st)))
      = requests_of (trace d) @ [HistUrl (strftime_date y) cid]"
    by (simp add: history_query_trace st_def)
  ultimately show ?thesis
    by blast
qed

subsection \<open>The pool invariant\<close>

lemma pool_inv_empty: "pool_inv rt P [] P"
  by (simp add: pool_inv_def)

lemma merge_pool_inv:
  assumes "pool_inv rt P0 L (id_pool d)"
    and "merge_danmaku_in_place rt d L X = (r, L', d')"
  shows "pool_inv rt P0 L' (id_pool d')"
proof -
  from merge_result [OF assms(2)] obtain Lp Xp ys where
    Lp: "prefix Lp L"
    and L': "L' = L @ ys"
    and d': "d' = d\<lparr> id_pool :=
        id_pool d \<union> fingerprint rt ` set Lp \<union> fingerprint rt ` set Xp \<rparr>"
    and dis: "distinct (map (fingerprint rt) ys)"
    and ys: "fingerprint rt ` set ys
        = fingerprint rt ` set Xp - (id_pool d \<union> fingerprint rt ` set Lp)"
    and rn: "\<forall>y \<in> set ys. get_unique_id rt y = Inr (fingerprint rt y)"
    by blast
  from d' have P': "id_pool d' = id_pool d \<union> fingerprint rt ` set Lp \<union> fingerprint rt ` set Xp"
    by simp
  from assms(1) have d: "distinct (map (fingerprint rt) L)"
    and P: "id_pool d = P0 \<union> fingerprint rt ` set L"
    and P0: "P0 \<inter> fingerprint rt ` set L = {}"
    and rl: "\<forall>x \<in> set L. get_unique_id rt x = Inr (fingerprint rt x)"
    by (simp_all add: pool_inv_def)
  from Lp have sub: "fingerprint rt ` set Lp \<subseteq> fingerprint rt ` set L"
    by (auto dest: set_mono_prefix)
  have "fingerprint rt ` set L \<inter> fingerprint rt ` set ys = {}"
    using ys P by auto
  with d dis have "distinct (map (fingerprint rt) L')"
    by (simp add: L')
  moreover have im: "fingerprint rt ` set L' = fingerprint rt ` set L \<union> fingerprint rt ` set ys"
    by (simp add: L' image_Un)
  have "id_pool d' = P0 \<union> fingerprint rt ` set L'"
    unfolding im P' P ys using sub by blast
  moreover have "P0 \<inter> fingerprint rt ` set L' = {}"
    unfolding im ys P using P0 by blast
  moreover have "\<forall>x \<in> set L'. get_unique_id rt x = Inr (fingerprint rt x)"
    using rl rn by (auto simp: L')
  ultimately show ?thesis
    by (simp add: pool_inv_def)
qed

lemma session_get_pool: "session_get rt d u = (r, d1) \<Longrightarrow> id_pool d1 = id_pool d"
  by (simp add: session_get_trace)

lemma segment_iter_pool_inv:
  assumes "pool_inv rt P0 L (id_pool d)"
    and "segment_iter rt cid i L d = Stop (L', d') \<or> segment_iter rt cid i L d = Go (L', d')"
  shows "pool_inv rt P0 L' (id_pool d')"
proof -
  obtain r d1 where g: "session_get rt d (SegUrl cid i) = (r, d1)"
    by (cases "session_get rt d (SegUrl cid i)")
  then have "id_pool d1 = id_pool d"
    by (rule session_get_pool)
  with assms(1) have inv1: "pool_inv rt P0 L (id_pool d1)"
    by simp
  show ?thesis
    using assms(2) g inv1
    by (auto simp: segment_iter_def Let_def sleep_def
        split: response.splits if_splits prod.splits option.splits
        dest: merge_pool_inv [OF inv1])
qed

lemma segment_loop_pool_inv:
  "pool_inv rt P0 L (id_pool d) \<Longrightarrow> segment_loop rt cid i L d = (L', d')
     \<Longrightarrow> pool_inv rt P0 L' (id_pool d')"
proof (induction rt cid i L d rule: segment_loop.induct)
  case (1 rt cid i L d)
  show ?case
  proof (cases "i \<le> 100")
    case False
    with "1.prems" show ?thesis
      by (subst (asm) segment_loop.simps) simp
  next
    case True
    show ?thesis
    proof (cases "segment_iter rt cid i L d")
      case (Stop r)
      with True "1.prems"(2) have "segment_iter rt cid i L d = Stop (L', d')"
        by (subst (asm) segment_loop.simps) simp
      with "1.prems"(1) show ?thesis
        using segment_iter_pool_inv by blast
    next
      case (Go r)
      obtain L1 d1 where r: "r = (L1, d1)"
        by (cases r)
      from True "1.prems"(2) Go r have nxt: "segment_loop rt cid (i + 1) L1 d1 = (L', d')"
        by (subst (asm) segment_loop.simps) simp
      from "1.prems"(1) Go r have "pool_inv rt P0 L1 (id_pool d1)"
        using segment_iter_pool_inv by blast
      from "1.IH" [OF True Go r [symmetric] this nxt] show ?thesis .
    qed
  qed
qed

lemma get_segmented_pool_inv:
  "get_segmented_danmaku rt d cid = (live, d1) \<Longrightarrow> pool_inv rt (id_pool d) live (id_pool d1)"
  unfolding get_segmented_danmaku_def
  using segment_loop_pool_inv [OF pool_inv_empty] by blast

text \<open>Merging a list with pairwise different fingerprints into a fresh pool keeps it.\<close>

lemma fold_merge_step_distinct:
  "distinct (map (fingerprint rt) xs) \<Longrightarrow> P \<inter> fingerprint rt ` set xs = {}
     \<Longrightarrow> fold (merge_step rt) xs (T, P) = (T @ xs, P \<union> fingerprint rt ` set xs)"
proof (induction xs arbitrary: T P)
  case Nil
  show ?case by simp
next
  case (Cons x xs)
  from Cons.prems have "fingerprint rt x \<notin> P"
    by auto
  moreover from Cons.prems
  have "insert (fingerprint rt x) P \<inter> fingerprint rt ` set xs = {}"
    by auto
  moreover from Cons.prems have "distinct (map (fingerprint rt) xs)"
    by simp
  ultimately show ?case
    using Cons.IH [of "insert (fingerprint rt x) P" "T @ [x]"]
    by (simp add: merge_step_def)
qed

lemma merge_all_single:
  assumes "distinct (map (fingerprint rt) L)"
    and "\<forall>x \<in> set L. get_unique_id rt x = Inr (fingerprint rt x)"
  shows "merge_all rt (if L \<noteq> [] then [L] else []) = Inr L"
proof -
  have "merge_new rt L [] {} = (None, L, fingerprint rt ` set L)"
    using merge_new_renderable [OF assms(2), of "[]" "{}"]
      fold_merge_step_distinct [OF assms(1), of "{}" "[]"]
    by simp
  then show ?thesis
    by (simp add: merge_all_def)
qed

lemma requests_of_sent: "requests_of (concat (map (sent cid) js)) = map (SegUrl cid) js"
  by (induction js) (simp_all add: sent_def)

lemma get_segmented_requests:
  assumes "get_segmented_danmaku rt d cid = (live, d')"
  shows "\<exists>k. 1 \<le> k \<and> k \<le> 100
     \<and> requests_of (trace d') = requests_of (trace d) @ map (SegUrl cid) [1..<Suc k]"
proof -
  from assms have r: "segment_loop rt cid 1 [] d = (live, d')"
    by (simp add: get_segmented_danmaku_def)
  from segment_loop_trace [OF _ r] obtain k tl where
    k: "1 \<le> k" "k \<le> 100" and tl: "tl = [] \<or> tl = [Sleep 0.5] \<and> k = 100"
    and t: "trace d' = trace d @ concat (map (sent cid) [1..<k]) @ [Get (SegUrl cid k)] @ tl"
    by auto
  from tl have "requests_of tl = []"
    by auto
  with t k(1) have "requests_of (trace d') = requests_of (trace d) @ map (SegUrl cid) [1..<Suc k]"
    by (simp add: requests_of_sent)
  with k show ?thesis
    by blast
qed

lemma get_current_danmaku_info_sample:
  "\<exists>ml d1. get_current_danmaku_info rt d cid = ((ml, []), d1)
     \<and> trace d1 = trace d @ [Get (SegUrl cid 1)] \<and> id_pool d1 = id_pool d"
proof -
  obtain r d1 where g: "session_get rt d (SegUrl cid 1) = (r, d1)"
    by (cases "session_get rt d (SegUrl cid 1)")
  then have "trace d1 = trace d @ [Get (SegUrl cid 1)] \<and> id_pool d1 = id_pool d"
    by (simp add: session_get_trace)
  with g show ?thesis
    by (auto simp: get_current_danmaku_info_def Let_def split: response.splits)
qed

lemma history_query_pool_inv:
  assumes "pool_inv rt P0 (aldanmu st) (id_pool (self st))"
  shows "pool_inv rt P0 (aldanmu (history_query rt cid st))
           (id_pool (self (history_query rt cid st)))"
proof -
  obtain r d1 where g: "session_get rt (self st) (HistUrl (strftime_date (current_date st)) cid)
      = (r, d1)"
    by (cases "session_get rt (self st) (HistUrl (strftime_date (current_date st)) cid)")
  then have "id_pool d1 = id_pool (self st)"
    by (rule session_get_pool)
  with assms have inv1: "pool_inv rt P0 (aldanmu st) (id_pool d1)"
    by simp
  show ?thesis
    using g inv1
    by (auto simp: history_query_def Let_def
        split: response.splits prod.splits option.splits dest: merge_pool_inv [OF inv1])
qed

lemma history_iter_pool_inv:
  assumes "pool_inv rt P0 (aldanmu st) (id_pool (self st))"
  shows "pool_inv rt P0 (aldanmu (outcome_state (history_iter rt cid ondanmu st)))
           (id_pool (self (outcome_state (history_iter rt cid ondanmu st))))"
proof -
  have s: "pool_inv rt P0 (aldanmu (st\<lparr> self := sleep 2 (self st) \<rparr>))
      (id_pool (self (st\<lparr> self := sleep 2 (self st) \<rparr>)))"
    using assms by (simp add: sleep_def)
  show ?thesis
    using assms s history_query_pool_inv [OF assms, of cid] history_query_pool_inv [OF s, of cid]
    by (auto simp: history_iter_def Let_def outcome_state_def split: sum.splits)
qed

lemma history_loop_pool_inv:
  "pool_inv rt P0 (aldanmu st) (id_pool (self st))
     \<Longrightarrow> history_loop fuel rt cid ondanmu start_date st = Some (Inr st')
     \<Longrightarrow> pool_inv rt P0 (aldanmu st') (id_pool (self st'))"
proof (induction fuel arbitrary: st)
  case 0
  then show ?case by simp
next
  case (Suc fuel)
  show ?case
  proof (cases "start_date \<le> current_date st")
    case False
    with Suc.prems show ?thesis
      by simp
  next
    case True
    from history_iter_pool_inv [OF Suc.prems(1), of cid ondanmu]
    have inv: "pool_inv rt P0 (aldanmu (outcome_state (history_iter rt cid ondanmu st)))
        (id_pool (self (outcome_state (history_iter rt cid ondanmu st))))" .
    show ?thesis
    proof (cases "history_iter rt cid ondanmu st")
      case (Continue st1)
      with inv have "pool_inv rt P0 (aldanmu st1) (id_pool (self st1))"
        by (simp add: outcome_state_def)
      moreover from True Continue Suc.prems(2)
      have "history_loop fuel rt cid ondanmu start_date st1 = Some (Inr st')"
        by simp
      ultimately show ?thesis
        by (rule Suc.IH)
    next
      case (Break st1)
      with True Suc.prems(2) have "st1 = st'"
        by simp
      with inv Break show ?thesis
        by (simp add: outcome_state_def)
    next
      case (Raise e st1)
      with True Suc.prems(2) show ?thesis
        by simp
    qed
  qed
qed

lemma get_history_pool_inv:
  assumes "get_history_danmaku_js_style fuel rt d cid video_date start_days end_days target_count
      = Some (Inr hist, d')"
  shows "pool_inv rt (id_pool d) hist (id_pool d')"
proof (cases video_date)
  case None
  with assms show ?thesis
    by (simp add: get_history_danmaku_js_style_def pool_inv_def)
next
  case (Some base_date)
  with assms obtain yesterday start_date st' where
    l: "history_loop fuel rt cid target_count start_date
          \<lparr> aldanmu = [], ldanmu = [], first_date = 0, current_date = yesterday, self = d \<rparr>
        = Some (Inr st')"
    and r: "hist = aldanmu st'" "d' = self st'"
    by (auto simp: get_history_danmaku_js_style_def split: sum.splits option.splits)
  have "pool_inv rt (id_pool d)
      (aldanmu \<lparr> aldanmu = [], ldanmu = [], first_date = 0, current_date = yesterday, self = d \<rparr>)
      (id_pool (self \<lparr> aldanmu = [], ldanmu = [], first_date = 0, current_date = yesterday,
         self = d \<rparr>))"
    by (simp add: pool_inv_empty)
  from history_loop_pool_inv [OF this l] r show ?thesis
    by simp
qed

lemma session_server_live:
  "get_segmented_danmaku (test_runtime session_server) (downloader_init ()) 42
     = ([dm 1 0 []],
        \<lparr> id_pool = {''1_0_0''}, remote = (),
          trace = [Get (SegUrl 42 1), Sleep 0.5, Get (SegUrl 42 2)] \<rparr>)"
  by code_simp

lemma session_server_history:
  "get_history_danmaku_js_style 1 (test_runtime session_server)
      \<lparr> id_pool = {''1_0_0''}, remote = (),
        trace = [Get (SegUrl 42 1), Sleep 0.5, Get (SegUrl 42 2)] \<rparr>
      42 (Some 63836985600000000) 0 1 5000
     = Some (Inr [dm 2 50 []],
        \<lparr> id_pool = {''1_0_0'', ''2_0_0''}, remote = (),
          trace = [Get (SegUrl 42 1), Sleep 0.5, Get (SegUrl 42 2), Get (HistUrl 738885 42)] \<rparr>)"
  by code_simp

subsection \<open>Decoding field by field\<close>

lemma varint_loop_shift:
  "varint_loop (pre @ xs) r s (length pre + i)
     = (case varint_loop xs r s i of (v, p) \<Rightarrow> (v, length pre + p))"
proof (induction xs r s i rule: varint_loop.induct)
  case (1 data result shift pos)
  show ?case
  proof (cases "pos < length data \<and> (data ! pos) AND 0x80 \<noteq> 0")
    case True
    with "1" have "varint_loop (pre @ data)
        (result OR push_bit shift (unat ((data ! pos) AND 0x7F))) (shift + 7)
        (length pre + (pos + 1))
      = (case varint_loop data (result OR push_bit shift (unat ((data ! pos) AND 0x7F)))
           (shift + 7) (pos + 1) of (v, p) \<Rightarrow> (v, length pre + p))"
      by simp
    with True show ?thesis
      by (subst varint_loop.simps, subst (2) varint_loop.simps)
        (simp add: nth_append add.assoc)
  next
    case False
    then show ?thesis
      by (subst varint_loop.simps, subst (2) varint_loop.simps)
        (auto simp: nth_append)
  qed
qed

lemma varint_loop_complete:
  "complete_varint bs \<Longrightarrow>
     varint_loop (bs @ rest) r s 0 = (fst (varint_loop bs r s 0), length bs)"
proof (induction bs arbitrary: r s)
  case Nil
  then show ?case by (simp add: complete_varint_def)
next
  case (Cons b bs)
  show ?case
  proof (cases "b AND 0x80 = 0")
    case True
    with Cons.prems have "bs = []"
      by (cases bs) (auto simp: complete_varint_def)
    with True show ?thesis
      by (subst varint_loop.simps, subst (2) varint_loop.simps) simp
  next
    case False
    with Cons.prems have c: "complete_varint bs"
      by (cases bs) (auto simp: complete_varint_def)
    let ?r = "r OR push_bit s (unat (b AND 0x7F))"
    have "varint_loop ((b # bs) @ rest) r s 0 = varint_loop ([b] @ (bs @ rest)) ?r (s + 7) (length [b] + 0)"
      using False by (subst varint_loop.simps) simp
    also have "\<dots> = (case varint_loop (bs @ rest) ?r (s + 7) 0 of (v, p) \<Rightarrow> (v, length [b] + p))"
      by (rule varint_loop_shift)
    also have "\<dots> = (fst (varint_loop bs ?r (s + 7) 0), length (b # bs))"
      using Cons.IH [OF c, of ?r "s + 7"] by simp
    finally have l: "varint_loop ((b # bs) @ rest) r s 0
        = (fst (varint_loop bs ?r (s + 7) 0), length (b # bs))" .
    have "varint_loop (b # bs) r s 0 = varint_loop ([b] @ bs) ?r (s + 7) (length [b] + 0)"
      using False by (subst varint_loop.simps) simp
    also have "\<dots> = (case varint_loop bs ?r (s + 7) 0 of (v, p) \<Rightarrow> (v, length [b] + p))"
      by (rule varint_loop_shift)
    finally have "fst (varint_loop (b # bs) r s 0) = fst (varint_loop bs ?r (s + 7) 0)"
      by (simp split: prod.splits)
    with l show ?thesis
      by simp
  qed
qed

lemma decode_varint_shift:
  "decode_varint (pre @ xs) (length pre + i)
     = (case decode_varint xs i of (v, p) \<Rightarrow> (v, length pre + p))"
  by (simp add: decode_varint_def varint_loop_shift)

lemma decode_varint_complete:
  "complete_varint bs \<Longrightarrow> decode_varint (bs @ rest) 0 = (varint_value bs, length bs)"
  by (simp add: decode_varint_def varint_value_def varint_loop_complete)

lemma decode_string_shift:
  "decode_string rt (pre @ xs) (length pre + i) n = decode_string rt xs i n"
  by (simp add: decode_string_def split: option.splits)

lemma element_loop_shift:
  "element_loop rt (pre @ xs) (length pre + i) e = element_loop rt xs i e"
proof (induction rt xs i e rule: element_loop.induct)
  case (1 rt data pos element)
  show ?case
  proof (cases "pos < length data")
    case False
    then have "element_loop rt data pos element = element"
      by (subst element_loop.simps) simp
    moreover from False have "element_loop rt (pre @ data) (length pre + pos) element = element"
      by (subst element_loop.simps) simp
    ultimately show ?thesis
      by simp
  next
    case True
    obtain tag p1 where t: "decode_varint data pos = (tag, p1)"
      by (cases "decode_varint data pos")
    obtain v p2 where u: "decode_varint data p1 = (v, p2)"
      by (cases "decode_varint data p1")
    have t': "decode_varint (pre @ data) (length pre + pos) = (tag, length pre + p1)"
      using t by (simp add: decode_varint_shift)
    have u': "decode_varint (pre @ data) (length pre + p1) = (v, length pre + p2)"
      using u by (simp add: decode_varint_shift)
    let ?e0 = "case map_of field_map (drop_bit 3 tag) of
        Some key \<Rightarrow> AList.update key (PInt (int v)) element | None \<Rightarrow> element"
    let ?e2 = "case map_of string_map (drop_bit 3 tag) of
        Some key \<Rightarrow> AList.update key (PStr (decode_string rt data p2 v)) element
      | None \<Rightarrow> element"
    have R: "element_loop rt data pos element
        = (if tag AND 7 = 0 then element_loop rt data p2 ?e0
           else if tag AND 7 = 2 then element_loop rt data (p2 + v) ?e2 else element)"
      using True t u by (subst element_loop.simps) (simp add: Let_def)
    have L: "element_loop rt (pre @ data) (length pre + pos) element
        = (if tag AND 7 = 0 then element_loop rt (pre @ data) (length pre + p2) ?e0
           else if tag AND 7 = 2 then element_loop rt (pre @ data) (length pre + (p2 + v)) ?e2
           else element)"
      using True t' u'
      by (subst element_loop.simps)
        (simp add: Let_def decode_string_shift add.assoc cong: option.case_cong)
    have I0: "tag AND 7 = 0 \<Longrightarrow>
        element_loop rt (pre @ data) (length pre + p2) ?e0 = element_loop rt data p2 ?e0"
      using "1.IH"(1) [OF True t [symmetric] refl refl _ u [symmetric]] by simp
    have I2: "tag AND 7 = 2 \<Longrightarrow>
        element_loop rt (pre @ data) (length pre + (p2 + v)) ?e2
          = element_loop rt data (p2 + v) ?e2"
      using "1.IH"(2) [OF True t [symmetric] refl refl _ _ u [symmetric]] by simp
    show ?thesis
      unfolding L R using I0 I2 by simp
  qed
qed

lemma response_loop_unfold:
  assumes "pos < length data"
    and "decode_varint data pos = (tag, p1)" and "decode_varint data p1 = (v, p2)"
  shows "response_loop rt data pos acc
     = (if drop_bit 3 tag = 1 \<and> tag AND 7 = 2 then
          response_loop rt data (p2 + v)
            (case decode_danmaku_element rt (take v (drop p2 data)) of
               Some danmaku_data \<Rightarrow> acc @ [DanmakuElement_init danmaku_data]
             | None \<Rightarrow> acc)
        else if tag AND 7 = 0 then response_loop rt data p2 acc
        else if tag AND 7 = 2 then response_loop rt data (p2 + v) acc
        else acc)"
  using assms by (subst response_loop.simps) (simp add: Let_def)

lemma response_loop_end: "\<not> pos < length data \<Longrightarrow> response_loop rt data pos acc = acc"
  by (subst response_loop.simps) simp

lemma response_loop_shift:
  "response_loop rt (pre @ xs) (length pre + i) acc = response_loop rt xs i acc"
proof (induction rt xs i acc rule: response_loop.induct)
  case (1 rt data pos danmaku_list)
  show ?case
  proof (cases "pos < length data")
    case False
    then show ?thesis
      by (simp add: response_loop_end)
  next
    case True
    obtain tag p1 where t: "decode_varint data pos = (tag, p1)"
      by (cases "decode_varint data pos")
    obtain v p2 where u: "decode_varint data p1 = (v, p2)"
      by (cases "decode_varint data p1")
    have t': "decode_varint (pre @ data) (length pre + pos) = (tag, length pre + p1)"
      using t by (simp add: decode_varint_shift)
    have u': "decode_varint (pre @ data) (length pre + p1) = (v, length pre + p2)"
      using u by (simp add: decode_varint_shift)
    have T': "length pre + pos < length (pre @ data)"
      using True by simp
    let ?a = "case decode_danmaku_element rt (take v (drop p2 data)) of
        Some danmaku_data \<Rightarrow> danmaku_list @ [DanmakuElement_init danmaku_data]
      | None \<Rightarrow> danmaku_list"
    have I1: "drop_bit 3 tag = 1 \<and> tag AND 7 = 2 \<Longrightarrow>
        response_loop rt (pre @ data) (length pre + (p2 + v)) ?a
          = response_loop rt data (p2 + v) ?a"
      using "1.IH"(1) [OF True t [symmetric] refl refl _ u [symmetric]] by simp
    have I2: "\<not> (drop_bit 3 tag = 1 \<and> tag AND 7 = 2) \<Longrightarrow> tag AND 7 = 0 \<Longrightarrow>
        response_loop rt (pre @ data) (length pre + p2) danmaku_list
          = response_loop rt data p2 danmaku_list"
      using "1.IH"(2) [OF True t [symmetric] refl refl _ _ u [symmetric]] by simp
    have I3: "\<not> (drop_bit 3 tag = 1 \<and> tag AND 7 = 2) \<Longrightarrow> tag AND 7 = 2 \<Longrightarrow>
        response_loop rt (pre @ data) (length pre + (p2 + v)) danmaku_list
          = response_loop rt data (p2 + v) danmaku_list"
      using "1.IH"(3) [OF True t [symmetric] refl refl _ _ _ u [symmetric]] by simp
    show ?thesis
      unfolding response_loop_unfold [OF T' t' u'] response_loop_unfold [OF True t u]
      using I1 I2 I3 by (simp add: add.assoc)
  qed
qed

lemma response_loop_acc:
  "response_loop rt data pos (A @ acc) = A @ response_loop rt data pos acc"
proof (induction rt data pos acc rule: response_loop.induct)
  case (1 rt data pos danmaku_list)
  show ?case
  proof (cases "pos < length data")
    case False
    then show ?thesis
      by (simp add: response_loop_end)
  next
    case True
    obtain tag p1 where t: "decode_varint data pos = (tag, p1)"
      by (cases "decode_varint data pos")
    obtain v p2 where u: "decode_varint data p1 = (v, p2)"
      by (cases "decode_varint data p1")
    let ?a = "case decode_danmaku_element rt (take v (drop p2 data)) of
        Some danmaku_data \<Rightarrow> danmaku_list @ [DanmakuElement_init danmaku_data]
      | None \<Rightarrow> danmaku_list"
    have a: "(case decode_danmaku_element rt (take v (drop p2 data)) of
        Some danmaku_data \<Rightarrow> (A @ danmaku_list) @ [DanmakuElement_init danmaku_data]
      | None \<Rightarrow> A @ danmaku_list) = A @ ?a"
      by (simp split: option.splits)
    have I1: "drop_bit 3 tag = 1 \<and> tag AND 7 = 2 \<Longrightarrow>
        response_loop rt data (p2 + v) (A @ ?a) = A @ response_loop rt data (p2 + v) ?a"
      using "1.IH"(1) [OF True t [symmetric] refl refl _ u [symmetric]] by simp
    have I2: "\<not> (drop_bit 3 tag = 1 \<and> tag AND 7 = 2) \<Longrightarrow> tag AND 7 = 0 \<Longrightarrow>
        response_loop rt data p2 (A @ danmaku_list) = A @ response_loop rt data p2 danmaku_list"
      using "1.IH"(2) [OF True t [symmetric] refl refl _ _ u [symmetric]] by simp
    have I3: "\<not> (drop_bit 3 tag = 1 \<and> tag AND 7 = 2) \<Longrightarrow> tag AND 7 = 2 \<Longrightarrow>
        response_loop rt data (p2 + v) (A @ danmaku_list)
          = A @ response_loop rt data (p2 + v) danmaku_list"
      using "1.IH"(3) [OF True t [symmetric] refl refl _ _ _ u [symmetric]] by simp
    show ?thesis
      unfolding response_loop_unfold [OF True t u] a
      using I1 I2 I3 by simp
  qed
qed

lemma element_loop_unfold:
  assumes "pos < length data"
    and "decode_varint data pos = (tag, p1)" and "decode_varint data p1 = (v, p2)"
  shows "element_loop rt data pos element
     = (if tag AND 7 = 0 then
          element_loop rt data p2
            (case map_of field_map (drop_bit 3 tag) of
               Some key \<Rightarrow> AList.update key (PInt (int v)) element
             | None \<Rightarrow> element)
        else if tag AND 7 = 2 then
          element_loop rt data (p2 + v)
            (case map_of string_map (drop_bit 3 tag) of
               Some key \<Rightarrow> AList.update key (PStr (decode_string rt data p2 v)) element
             | None \<Rightarrow> element)
        else element)"
  using assms by (subst element_loop.simps) (simp add: Let_def)

lemma element_loop_end: "\<not> pos < length data \<Longrightarrow> element_loop rt data pos element = element"
  by (subst element_loop.simps) simp

lemma complete_varint_nonempty: "complete_varint t \<Longrightarrow> 0 < length (t @ xs)"
  by (simp add: complete_varint_def)

lemma two_varints:
  assumes "complete_varint t" and "complete_varint v"
  shows "decode_varint (t @ v @ rest) 0 = (varint_value t, length t)"
    and "decode_varint (t @ v @ rest) (length t) = (varint_value v, length t + length v)"
proof -
  show "decode_varint (t @ v @ rest) 0 = (varint_value t, length t)"
    using assms(1) by (rule decode_varint_complete)
  have "decode_varint (t @ (v @ rest)) (length t + 0)
      = (case decode_varint (v @ rest) 0 of (x, p) \<Rightarrow> (x, length t + p))"
    by (rule decode_varint_shift)
  then show "decode_varint (t @ v @ rest) (length t) = (varint_value v, length t + length v)"
    using decode_varint_complete [OF assms(2), of rest] by simp
qed

lemma response_loop_field:
  assumes "well_formed f"
  shows "response_loop rt (field_bytes f @ rest) 0 acc
     = response_loop rt rest 0 (acc @ records_of rt f)"
proof (cases f)
  case (Varint_field t v)
  with assms have wf: "complete_varint t" "varint_value t AND 7 = 0" "complete_varint v"
    by simp_all
  have sh: "response_loop rt ((t @ v) @ rest) (length (t @ v) + 0) acc = response_loop rt rest 0 acc"
    by (rule response_loop_shift)
  have "response_loop rt (t @ v @ rest) 0 acc
      = response_loop rt (t @ v @ rest) (length t + length v) acc"
    unfolding response_loop_unfold [OF complete_varint_nonempty [OF wf(1)]
        two_varints [OF wf(1) wf(3)]]
    using wf(2) by simp
  with sh show ?thesis
    by (simp add: Varint_field)
next
  case (Delimited_field t l s)
  with assms have wf: "complete_varint t" "varint_value t AND 7 = 2" "complete_varint l"
    "varint_value l = length s"
    by simp_all
  have sh: "response_loop rt ((t @ l @ s) @ rest) (length (t @ l @ s) + 0) a
      = response_loop rt rest 0 a" for a
    by (rule response_loop_shift)
  have "response_loop rt (t @ l @ s @ rest) 0 acc
      = response_loop rt (t @ l @ s @ rest) (length t + length l + length s)
          (acc @ records_of rt f)"
    unfolding response_loop_unfold [OF complete_varint_nonempty [OF wf(1)]
        two_varints [OF wf(1) wf(3)]]
    using wf(2,4) by (simp add: Delimited_field split: option.splits)
  with sh show ?thesis
    by (simp add: Delimited_field add.assoc)
qed

lemma element_loop_field:
  assumes "well_formed f"
  shows "element_loop rt (field_bytes f @ rest) 0 element
     = element_loop rt rest 0 (element_store rt f element)"
proof (cases f)
  case (Varint_field t v)
  with assms have wf: "complete_varint t" "varint_value t AND 7 = 0" "complete_varint v"
    by simp_all
  have sh: "element_loop rt ((t @ v) @ rest) (length (t @ v) + 0) e = element_loop rt rest 0 e"
    for e
    by (rule element_loop_shift)
  have "element_loop rt (t @ v @ rest) 0 element
      = element_loop rt (t @ v @ rest) (length t + length v) (element_store rt f element)"
    unfolding element_loop_unfold [OF complete_varint_nonempty [OF wf(1)]
        two_varints [OF wf(1) wf(3)]]
    using wf(2) by (simp add: Varint_field)
  with sh show ?thesis
    by (simp add: Varint_field)
next
  case (Delimited_field t l s)
  with assms have wf: "complete_varint t" "varint_value t AND 7 = 2" "complete_varint l"
    "varint_value l = length s"
    by simp_all
  have sh: "element_loop rt ((t @ l @ s) @ rest) (length (t @ l @ s) + 0) e
      = element_loop rt rest 0 e" for e
    by (rule element_loop_shift)
  have ds: "decode_string rt (t @ l @ s @ rest) (length t + length l) (length s)
      = decode_string rt s 0 (length s)"
    by (simp add: decode_string_def split: option.splits)
  have "element_loop rt (t @ l @ s @ rest) 0 element
      = element_loop rt (t @ l @ s @ rest) (length t + length l + length s)
          (element_store rt f element)"
    unfolding element_loop_unfold [OF complete_varint_nonempty [OF wf(1)]
        two_varints [OF wf(1) wf(3)]]
    using wf(2,4) by (simp add: Delimited_field ds cong: option.case_cong)
  with sh show ?thesis
    by (simp add: Delimited_field add.assoc)
qed

lemma response_loop_fields:
  "\<forall>f \<in> set fs. well_formed f \<Longrightarrow>
     response_loop rt (concat (map field_bytes fs) @ rest) 0 acc
       = response_loop rt rest 0 (acc @ concat (map (records_of rt) fs))"
proof (induction fs arbitrary: acc)
  case Nil
  show ?case by simp
next
  case (Cons f fs)
  then have "response_loop rt (field_bytes f @ (concat (map field_bytes fs) @ rest)) 0 acc
      = response_loop rt (concat (map field_bytes fs) @ rest) 0 (acc @ records_of rt f)"
    by (simp add: response_loop_field)
  with Cons show ?case
    by simp
qed

lemma element_loop_fields:
  "\<forall>f \<in> set fs. well_formed f \<Longrightarrow>
     element_loop rt (concat (map field_bytes fs) @ rest) 0 element
       = element_loop rt rest 0 (fold (element_store rt) fs element)"
proof (induction fs arbitrary: element)
  case Nil
  show ?case by simp
next
  case (Cons f fs)
  then have "element_loop rt (field_bytes f @ (concat (map field_bytes fs) @ rest)) 0 element
      = element_loop rt (concat (map field_bytes fs) @ rest) 0 (element_store rt f element)"
    by (simp add: element_loop_field)
  with Cons show ?case
    by simp
qed

lemma response_loop_abort:
  assumes "complete_varint t" and "varint_value t AND 7 \<noteq> 0" and "varint_value t AND 7 \<noteq> 2"
  shows "response_loop rt (t @ rest) 0 acc = acc"
proof -
  obtain v p2 where u: "decode_varint (t @ rest) (length t) = (v, p2)"
    by (cases "decode_varint (t @ rest) (length t)")
  show ?thesis
    unfolding response_loop_unfold [OF complete_varint_nonempty [OF assms(1)]
        decode_varint_complete [OF assms(1)] u]
    using assms(2,3) by simp
qed

lemma element_loop_abort:
  assumes "complete_varint t" and "varint_value t AND 7 \<noteq> 0" and "varint_value t AND 7 \<noteq> 2"
  shows "element_loop rt (t @ rest) 0 element = element"
proof -
  obtain v p2 where u: "decode_varint (t @ rest) (length t) = (v, p2)"
    by (cases "decode_varint (t @ rest) (length t)")
  show ?thesis
    unfolding element_loop_unfold [OF complete_varint_nonempty [OF assms(1)]
        decode_varint_complete [OF assms(1)] u]
    using assms(2,3) by simp
qed

lemma update_keeps_keys: "fst ` set element \<subseteq> fst ` set (AList.update key val element)"
  by (simp add: dom_update subset_insertI)

lemma element_loop_keeps_keys:
  "fst ` set element \<subseteq> fst ` set (element_loop rt data pos element)"
proof (induction rt data pos element rule: element_loop.induct)
  case (1 rt data pos element)
  show ?case
  proof (cases "pos < length data")
    case False
    then show ?thesis
      by (simp add: element_loop_end)
  next
    case True
    obtain tag p1 where t: "decode_varint data pos = (tag, p1)"
      by (cases "decode_varint data pos")
    obtain v p2 where u: "decode_varint data p1 = (v, p2)"
      by (cases "decode_varint data p1")
    let ?e0 = "case map_of field_map (drop_bit 3 tag) of
        Some key \<Rightarrow> AList.update key (PInt (int v)) element | None \<Rightarrow> element"
    let ?e2 = "case map_of string_map (drop_bit 3 tag) of
        Some key \<Rightarrow> AList.update key (PStr (decode_string rt data p2 v)) element
      | None \<Rightarrow> element"
    have k0: "fst ` set element \<subseteq> fst ` set ?e0"
      by (cases "map_of field_map (drop_bit 3 tag)") (simp_all add: update_keeps_keys)
    have k2: "fst ` set element \<subseteq> fst ` set ?e2"
      by (cases "map_of string_map (drop_bit 3 tag)") (simp_all add: update_keeps_keys)
    have I0: "tag AND 7 = 0 \<Longrightarrow> fst ` set ?e0 \<subseteq> fst ` set (element_loop rt data p2 ?e0)"
      using "1.IH"(1) [OF True t [symmetric] refl refl _ u [symmetric]] by simp
    have I2: "tag AND 7 = 2 \<Longrightarrow>
        fst ` set ?e2 \<subseteq> fst ` set (element_loop rt data (p2 + v) ?e2)"
      using "1.IH"(2) [OF True t [symmetric] refl refl _ _ u [symmetric]] by simp
    consider "tag AND 7 = 0" | "tag AND 7 \<noteq> 0" "tag AND 7 = 2"
      | "tag AND 7 \<noteq> 0" "tag AND 7 \<noteq> 2"
      by blast
    then show ?thesis
    proof cases
      case 1
      then have "element_loop rt data pos element = element_loop rt data p2 ?e0"
        by (simp add: element_loop_unfold [OF True t u])
      with subset_trans [OF k0 I0 [OF 1]] show ?thesis
        by simp
    next
      case 2
      then have "element_loop rt data pos element = element_loop rt data (p2 + v) ?e2"
        by (simp add: element_loop_unfold [OF True t u])
      with subset_trans [OF k2 I2 [OF 2(2)]] show ?thesis
        by simp
    next
      case 3
      then have "element_loop rt data pos element = element"
        by (simp add: element_loop_unfold [OF True t u])
      then show ?thesis
        by simp
    qed
  qed
qed

lemma history_iter_raise:
  assumes "history_iter rt cid ondanmu st = Raise e st'"
  shows "first_date st' = 0 \<and> datetime_add (current_date st') (- timedelta_days 1) = Inl e"
  using assms by (auto simp: history_iter_def Let_def split: if_splits sum.splits)

lemma history_query_no_date:
  assumes "fromtimestamp rt (first_date (history_query rt cid st)) = None"
    and "session_get rt (self st) (HistUrl (strftime_date (current_date st)) cid)
      = (Response 200 p, d1)"
  shows "ldanmu (history_query rt cid st) = []"
  using assms
  by (auto simp: history_query_def Let_def split: prod.splits option.splits if_splits)

section \<open>Claims\<close>

text \<open>
  C1 as stated fails for the archive accumulator: the pool it is merged into already
  holds the fingerprints of the live list, so after one live record and one archive
  record the archive list has one element and the pool two.
\<close>

theorem shared_pool_breaks_size_equality:
  "get_segmented_danmaku (test_runtime session_server) (downloader_init ()) 42
     = ([dm 1 0 []],
        \<lparr> id_pool = {''1_0_0''}, remote = (),
          trace = [Get (SegUrl 42 1), Sleep 0.5, Get (SegUrl 42 2)] \<rparr>)
   \<and> get_history_danmaku_js_style 1 (test_runtime session_server)
        \<lparr> id_pool = {''1_0_0''}, remote = (),
          trace = [Get (SegUrl 42 1), Sleep 0.5, Get (SegUrl 42 2)] \<rparr>
        42 (Some 63836985600000000) 0 1 5000
     = Some (Inr [dm 2 50 []],
        \<lparr> id_pool = {''1_0_0'', ''2_0_0''}, remote = (),
          trace = [Get (SegUrl 42 1), Sleep 0.5, Get (SegUrl 42 2), Get (HistUrl 738885 42)] \<rparr>)
   \<and> length [dm 2 50 []] \<noteq> card {''1_0_0'', ''2_0_0''}"
  using session_server_live session_server_history by simp

text \<open>
  C1, amended. In a session that starts with an empty pool, runs the live fetch and then
  the archive fetch: no two elements of the live list and no two elements of the
  archive list share a fingerprint, nor does an element of one with an element of the
  other; after the live fetch the pool is the set of the live list's fingerprints and
  has its size; after the archive fetch the pool is the set of the fingerprints of both
  lists, and its size is the sum of their lengths.
\<close>

theorem session_pool_invariant:
  assumes "id_pool d = {}"
    and "get_segmented_danmaku rt d cid = (live, d1)"
    and "get_history_danmaku_js_style fuel rt d1 cid video_date start_days end_days target_count
      = Some (Inr hist, d2)"
  shows "distinct (map (fingerprint rt) live) \<and> distinct (map (fingerprint rt) hist)
       \<and> fingerprint rt ` set live \<inter> fingerprint rt ` set hist = {}
       \<and> id_pool d1 = fingerprint rt ` set live
       \<and> length live = card (id_pool d1)
       \<and> id_pool d2 = fingerprint rt ` set live \<union> fingerprint rt ` set hist
       \<and> length live + length hist = card (id_pool d2)"
proof -
  from get_segmented_pool_inv [OF assms(2)] assms(1)
  have dl: "distinct (map (fingerprint rt) live)"
    and p1: "id_pool d1 = fingerprint rt ` set live"
    by (simp_all add: pool_inv_def)
  from get_history_pool_inv [OF assms(3)]
  have dh: "distinct (map (fingerprint rt) hist)"
    and p2: "id_pool d2 = id_pool d1 \<union> fingerprint rt ` set hist"
    and dj: "id_pool d1 \<inter> fingerprint rt ` set hist = {}"
    by (simp_all add: pool_inv_def)
  have cl: "card (fingerprint rt ` set live) = length live"
    using distinct_card [OF dl] by simp
  have ch: "card (fingerprint rt ` set hist) = length hist"
    using distinct_card [OF dh] by simp
  have "card (id_pool d2) = length live + length hist"
    using dj cl ch unfolding p2 p1 by (simp add: card_Un_disjoint)
  with dl dh dj p1 p2 cl show ?thesis
    by simp
qed

theorem session_pool_invariant_witness:
  "length [dm 1 0 []] + length [dm 2 50 []]
     = card (id_pool \<lparr> id_pool = {''1_0_0'', ''2_0_0''}, remote = (),
         trace = [Get (SegUrl 42 1), Sleep 0.5, Get (SegUrl 42 2), Get (HistUrl 738885 42)] \<rparr>)
   \<and> distinct (map (fingerprint (test_runtime session_server)) [dm 2 50 []])"
proof -
  have e: "id_pool (downloader_init ()) = {}"
    by (simp add: downloader_init_def)
  from session_pool_invariant [OF e session_server_live session_server_history]
  show ?thesis
    by blast
qed

text \<open>
  C3. In one iteration of the archive loop a request is sent if and only if
  \<^verbatim>\<open>first_date\<close> is 0 or the last batch has at least \<open>0.5 * min(target, 5000)\<close> records
  (the requests sent by the iteration are exactly that one, for \<^verbatim>\<open>current_date\<close>, or
  none); the iteration leaves the loop if and only if the last batch is below that
  threshold at the density check; hence an iteration that sends no request leaves the
  loop, and no two iterations in a row go without a request. When the loop is entered and
  the first answer holds a batch below the threshold, the fetch returns after exactly
  one request, whatever the fuel.
\<close>

theorem history_query_gate_and_density_stop:
  "(requests_of (trace (self (outcome_state (history_iter rt cid ondanmu st))))
      = requests_of (trace (self st))
        @ (if first_date st = 0
              \<or> real (length (ldanmu st)) \<ge> real_of_int (min ondanmu 5000) * 0.5
           then [HistUrl (strftime_date (current_date st)) cid] else []))
   \<and> ((\<exists>st'. history_iter rt cid ondanmu st = Break st')
        \<longleftrightarrow> real (length (ldanmu (outcome_state (history_iter rt cid ondanmu st))))
              < real_of_int (min ondanmu 5000) * 0.5)
   \<and> (\<not> (first_date st = 0
          \<or> real (length (ldanmu st)) \<ge> real_of_int (min ondanmu 5000) * 0.5)
        \<longrightarrow> (\<exists>st'. history_iter rt cid ondanmu st = Break st'))
   \<and> (\<forall>y s p. datetime_add (now rt) (- timedelta_days 1) = Inr y
          \<and> datetime_add base (timedelta_days sd) = Inr s \<and> s \<le> y
          \<and> fst (net rt (remote d) (HistUrl (strftime_date y) cid)) = Response 200 p
          \<and> real (length (decode_danmaku_response rt p)) < real_of_int (min tc 5000) * 0.5
        \<longrightarrow> (\<exists>L d'. get_history_danmaku_js_style (Suc fuel) rt d cid (Some base) sd ed tc
                    = Some (Inr L, d')
                  \<and> requests_of (trace d')
                    = requests_of (trace d) @ [HistUrl (strftime_date y) cid]))"
proof (intro conjI)
  show "requests_of (trace (self (outcome_state (history_iter rt cid ondanmu st))))
      = requests_of (trace (self st))
        @ (if first_date st = 0
              \<or> real (length (ldanmu st)) \<ge> real_of_int (min ondanmu 5000) * 0.5
           then [HistUrl (strftime_date (current_date st)) cid] else [])"
    using history_iter_requests [of rt cid ondanmu st] by (simp add: density_reached_def)
next
  show "(\<exists>st'. history_iter rt cid ondanmu st = Break st')
        \<longleftrightarrow> real (length (ldanmu (outcome_state (history_iter rt cid ondanmu st))))
              < real_of_int (min ondanmu 5000) * 0.5"
    using history_iter_break_iff [of rt cid ondanmu st] by (simp add: density_low_def)
next
  show "\<not> (first_date st = 0
          \<or> real (length (ldanmu st)) \<ge> real_of_int (min ondanmu 5000) * 0.5)
        \<longrightarrow> (\<exists>st'. history_iter rt cid ondanmu st = Break st')"
    using history_iter_skip_breaks [of st ondanmu rt cid] by (simp add: density_reached_def)
next
  show "\<forall>y s p. datetime_add (now rt) (- timedelta_days 1) = Inr y
          \<and> datetime_add base (timedelta_days sd) = Inr s \<and> s \<le> y
          \<and> fst (net rt (remote d) (HistUrl (strftime_date y) cid)) = Response 200 p
          \<and> real (length (decode_danmaku_response rt p)) < real_of_int (min tc 5000) * 0.5
        \<longrightarrow> (\<exists>L d'. get_history_danmaku_js_style (Suc fuel) rt d cid (Some base) sd ed tc
                    = Some (Inr L, d')
                  \<and> requests_of (trace d')
                    = requests_of (trace d) @ [HistUrl (strftime_date y) cid])"
    using history_first_sparse_batch [of rt _ base sd _ d cid _ tc fuel ed]
    by (simp add: density_low_def)
qed


theorem history_query_gate_and_density_stop_witness:
  "(\<exists>L d'. get_history_danmaku_js_style (Suc 0) (test_runtime archive_server)
        (downloader_init ()) 42 (Some 63836985600000000) 0 1 5000 = Some (Inr L, d')
      \<and> requests_of (trace d') = [HistUrl 738885 42])
   \<and> (\<exists>st'. history_iter (test_runtime archive_server) 42 5000
        \<lparr> aldanmu = [], ldanmu = [dm 5 100 []], first_date = 50,
          current_date = 63839664000000000, self = downloader_init () \<rparr> = Break st')"
proof -
  let ?rt = "test_runtime archive_server"
  let ?st = "\<lparr> aldanmu = [], ldanmu = [dm 5 100 []], first_date = 50,
          current_date = 63839664000000000, self = downloader_init () \<rparr>"
  have y: "datetime_add (now ?rt) (- timedelta_days 1) = Inr 63839664000000000"
    by (simp add: datetime_add_def timedelta_days_def test_runtime_def)
  have s: "datetime_add 63836985600000000 (timedelta_days 0) = Inr 63836985600000000"
    by (simp add: datetime_add_def timedelta_days_def)
  have a: "fst (net ?rt (remote (downloader_init ())) (HistUrl (strftime_date 63839664000000000) 42))
      = Response 200 two_record_payload"
    by (simp add: test_runtime_def archive_server_def)
  have sparse: "real (length (decode_danmaku_response ?rt two_record_payload))
      < real_of_int (min 5000 5000) * 0.5"
    by (simp add: decode_two_record_payload)
  have le: "(63836985600000000::int) \<le> 63839664000000000"
    by simp
  have sd: "strftime_date 63839664000000000 = 738885"
    by (simp add: strftime_date_def)
  note t = history_query_gate_and_density_stop [of ?rt 42 5000 ?st 63836985600000000 0
      "downloader_init ()" 5000 0 1]
  from t have "\<forall>y s p. datetime_add (now ?rt) (- timedelta_days 1) = Inr y
          \<and> datetime_add 63836985600000000 (timedelta_days 0) = Inr s \<and> s \<le> y
          \<and> fst (net ?rt (remote (downloader_init ())) (HistUrl (strftime_date y) 42))
              = Response 200 p
          \<and> real (length (decode_danmaku_response ?rt p)) < real_of_int (min 5000 5000) * 0.5
        \<longrightarrow> (\<exists>L d'. get_history_danmaku_js_style (Suc 0) ?rt (downloader_init ()) 42
                      (Some 63836985600000000) 0 1 5000 = Some (Inr L, d')
                  \<and> requests_of (trace d')
                    = requests_of (trace (downloader_init ())) @ [HistUrl (strftime_date y) 42])"
    by (elim conjE)
  from this [rule_format, of 63839664000000000 63836985600000000 two_record_payload]
    y s le a sparse
  have "\<exists>L d'. get_history_danmaku_js_style (Suc 0) ?rt (downloader_init ()) 42
        (Some 63836985600000000) 0 1 5000 = Some (Inr L, d')
      \<and> requests_of (trace d')
         = requests_of (trace (downloader_init ())) @ [HistUrl (strftime_date 63839664000000000) 42]"
    by blast
  moreover from t have "\<not> (first_date ?st = 0
          \<or> real (length (ldanmu ?st)) \<ge> real_of_int (min 5000 5000) * 0.5)
        \<longrightarrow> (\<exists>st'. history_iter ?rt 42 5000 ?st = Break st')"
    by (elim conjE)
  then have "\<exists>st'. history_iter ?rt 42 5000 ?st = Break st'"
    by simp
  ultimately show ?thesis
    by (simp add: sd downloader_init_def)
qed

text \<open>
  C4. For every runtime, server and downloader state the segment fetcher returns (it is a
  total function), and what it did is: requests for the segments \<open>1, 2, \<dots>, k\<close> in this
  order, one each, for some \<open>k\<close> from 1 to 100, with a delay after each request but the
  last (and after the last too when the loop ran through segment 100). Segment 100 is
  still requested when the loop gets there, and nothing is requested at index 101.
\<close>

theorem segment_fetcher_at_most_100_requests:
  "(\<exists>L' d' k tl. get_segmented_danmaku rt d cid = (L', d') \<and> 1 \<le> k \<and> k \<le> 100 \<and>
      (tl = [] \<or> tl = [Sleep 0.5] \<and> k = 100) \<and>
      trace d' = trace d @ concat (map (\<lambda>j. [Get (SegUrl cid j), Sleep 0.5]) [1..<k])
                   @ [Get (SegUrl cid k)] @ tl)
   \<and> (\<exists>tl. trace (snd (segment_loop rt cid 100 L d)) = trace d @ [Get (SegUrl cid 100)] @ tl)
   \<and> segment_loop rt cid 101 L d = (L, d)"
proof (intro conjI)
  obtain L' d' where r: "segment_loop rt cid 1 [] d = (L', d')"
    by (cases "segment_loop rt cid 1 [] d")
  from segment_loop_trace [OF _ r] obtain k tl where
    "1 \<le> k" "k \<le> 100" "tl = [] \<or> tl = [Sleep 0.5] \<and> k = 100"
    "trace d' = trace d @ concat (map (sent cid) [1..<k]) @ [Get (SegUrl cid k)] @ tl"
    by auto
  moreover have "sent cid = (\<lambda>j. [Get (SegUrl cid j), Sleep 0.5])"
    by (rule ext) (simp add: sent_def)
  ultimately show "\<exists>L' d' k tl. get_segmented_danmaku rt d cid = (L', d') \<and> 1 \<le> k \<and> k \<le> 100 \<and>
      (tl = [] \<or> tl = [Sleep 0.5] \<and> k = 100) \<and>
      trace d' = trace d @ concat (map (\<lambda>j. [Get (SegUrl cid j), Sleep 0.5]) [1..<k])
                   @ [Get (SegUrl cid k)] @ tl"
    using r unfolding get_segmented_danmaku_def by metis
next
  obtain L' d' where r: "segment_loop rt cid 100 L d = (L', d')"
    by (cases "segment_loop rt cid 100 L d")
  from segment_loop_trace [OF _ r] obtain k tl where
    k: "100 \<le> k" "k \<le> 100"
    and t: "trace d' = trace d @ concat (map (sent cid) [100..<k]) @ [Get (SegUrl cid k)] @ tl"
    by auto
  from k have "k = 100"
    by simp
  with t r show "\<exists>tl. trace (snd (segment_loop rt cid 100 L d))
      = trace d @ [Get (SegUrl cid 100)] @ tl"
    by simp
next
  show "segment_loop rt cid 101 L d = (L, d)"
    by (subst segment_loop.simps) simp
qed

theorem segment_fetcher_at_most_100_requests_witness:
  "(\<exists>L' d' k tl. get_segmented_danmaku (test_runtime fresh_server) (downloader_init 0) 42
       = (L', d') \<and> 1 \<le> k \<and> k \<le> 100 \<and>
     (tl = [] \<or> tl = [Sleep 0.5] \<and> k = 100) \<and>
     trace d' = trace (downloader_init (0::nat))
                  @ concat (map (\<lambda>j. [Get (SegUrl 42 j), Sleep 0.5]) [1..<k])
                  @ [Get (SegUrl 42 k)] @ tl)
   \<and> segment_loop (test_runtime fresh_server) 42 101 [] (downloader_init 0)
       = ([], downloader_init 0)"
  using segment_fetcher_at_most_100_requests
    [of "test_runtime fresh_server" "downloader_init 0" 42 "[]"]
  by simp

text \<open>
  C7 as stated fails: a field with number 1 and wire kind 2 whose sub-message holds no
  recognised field yields no record.
\<close>

theorem empty_submessage_yields_no_record:
  "well_formed (Delimited_field [0x0A] [0x00] [])
   \<and> drop_bit 3 (varint_value [0x0A]) = 1 \<and> varint_value [0x0A] AND 7 = 2
   \<and> field_bytes (Delimited_field [0x0A] [0x00] []) = [0x0A, 0x00]
   \<and> decode_danmaku_response (test_runtime no_server) [0x0A, 0x00] = []"
  by code_simp

text \<open>
  C7, amended. For a payload that starts with well-formed fields (each a complete tag
  of wire kind 0 followed by a complete varint, or a complete tag of wire kind 2
  followed by a complete length and that many bytes) and goes on with any bytes at all:
  the decoder yields, in order, one record for each field with number 1 and wire kind 2
  whose sub-message decodes to a non-empty dictionary, nothing for any other field, and
  then what it yields on the remaining bytes alone; and when the remaining bytes start
  with a complete tag of another wire kind, decoding ends there with the records
  collected from the fields before.
\<close>

theorem top_level_decoding_by_fields:
  assumes "\<forall>f \<in> set fs. well_formed f"
  shows "decode_danmaku_response rt (concat (map field_bytes fs) @ rest)
           = concat (map (records_of rt) fs) @ decode_danmaku_response rt rest
       \<and> (complete_varint t \<and> varint_value t AND 7 \<noteq> 0 \<and> varint_value t AND 7 \<noteq> 2
            \<longrightarrow> decode_danmaku_response rt (concat (map field_bytes fs) @ t @ rest)
                  = concat (map (records_of rt) fs))"
proof
  have "response_loop rt (concat (map field_bytes fs) @ rest) 0 []
      = response_loop rt rest 0 (concat (map (records_of rt) fs) @ [])"
    using response_loop_fields [OF assms, of rt rest "[]"] by simp
  then show "decode_danmaku_response rt (concat (map field_bytes fs) @ rest)
      = concat (map (records_of rt) fs) @ decode_danmaku_response rt rest"
    unfolding decode_danmaku_response_def by (simp only: response_loop_acc)
next
  show "complete_varint t \<and> varint_value t AND 7 \<noteq> 0 \<and> varint_value t AND 7 \<noteq> 2
      \<longrightarrow> decode_danmaku_response rt (concat (map field_bytes fs) @ t @ rest)
            = concat (map (records_of rt) fs)"
  proof
    assume a: "complete_varint t \<and> varint_value t AND 7 \<noteq> 0 \<and> varint_value t AND 7 \<noteq> 2"
    have "response_loop rt (concat (map field_bytes fs) @ (t @ rest)) 0 []
        = response_loop rt (t @ rest) 0 (concat (map (records_of rt) fs))"
      using response_loop_fields [OF assms, of rt "t @ rest" "[]"] by simp
    also have "\<dots> = concat (map (records_of rt) fs)"
      using a by (simp add: response_loop_abort)
    finally show "decode_danmaku_response rt (concat (map field_bytes fs) @ t @ rest)
        = concat (map (records_of rt) fs)"
      by (simp add: decode_danmaku_response_def)
  qed
qed


theorem top_level_decoding_by_fields_witness:
  "decode_danmaku_response (test_runtime no_server)
      [0x18, 0x05, 0x0A, 0x02, 0x10, 0x01, 0x12, 0x01, 0xFF, 0x0A, 0x02, 0x10, 0x02]
     = [dm 1 0 [], dm 2 0 []]
   \<and> decode_danmaku_response (test_runtime no_server)
      [0x18, 0x05, 0x0A, 0x02, 0x10, 0x01, 0x12, 0x01, 0xFF, 0x0D, 0x0A, 0x02, 0x10, 0x02]
     = [dm 1 0 []]"
proof -
  let ?rt = "test_runtime no_server"
  let ?fs = "[Varint_field [0x18] [0x05], Delimited_field [0x0A] [0x02] [0x10, 0x01],
      Delimited_field [0x12] [0x01] [0xFF]]"
  have wf: "\<forall>f \<in> set ?fs. well_formed f"
    by code_simp
  have recs: "concat (map (records_of ?rt) ?fs) = [dm 1 0 []]"
    by code_simp
  have rest: "decode_danmaku_response ?rt [0x0A, 0x02, 0x10, 0x02] = [dm 2 0 []]"
    by code_simp
  have t: "complete_varint [0x0D] \<and> varint_value [0x0D] AND 7 \<noteq> 0
      \<and> varint_value [0x0D] AND 7 \<noteq> 2"
    by code_simp
  from top_level_decoding_by_fields [OF wf, of ?rt "[0x0A, 0x02, 0x10, 0x02]" "[0x0D]"]
    recs rest t
  show ?thesis
    by simp
qed

text \<open>
  C9 as stated fails: a server that answers the probe with one record and every later
  request with 304 gives an empty output, while the union of the probe sample and the
  live list holds that record.
\<close>

theorem probe_sample_not_in_output:
  "decode_danmaku_response (test_runtime probe_only_server) [0x0A, 0x02, 0x10, 0x01]
     = [dm 1 0 []]
   \<and> get_segmented_danmaku (test_runtime probe_only_server)
        \<lparr> id_pool = {}, remote = 1, trace = [Get (SegUrl 42 1)] \<rparr> 42
     = ([], \<lparr> id_pool = {}, remote = 2, trace = [Get (SegUrl 42 1), Get (SegUrl 42 1)] \<rparr>)
   \<and> get_complete_danmaku_js_style 0 (test_runtime probe_only_server) (downloader_init 0) 42
        None 0 None
     = Some (Inr [],
         \<lparr> id_pool = {}, remote = 2, trace = [Get (SegUrl 42 1), Get (SegUrl 42 1)] \<rparr>)
   \<and> save_danmaku_xml_order []
     \<noteq> spec_output_without_history (test_runtime probe_only_server) [dm 1 0 []] []"
  by code_simp

text \<open>
  C9, amended. Without publish date the archive fetch returns the empty list at once,
  with the downloader (its trace included) unchanged, for any fuel; the orchestrator
  never calls it: it sends the probe, whose sample is always empty, and the live-segment
  requests \<open>1, \<dots>, k\<close>, and returns the live-segment list as it is (already free of
  duplicate fingerprints), which the writer then sorts by offset.
\<close>

theorem no_publish_date_skips_history:
  "get_history_danmaku_js_style fuel rt d cid None start_days end_days target_count
     = Some (Inr [], d)
   \<and> (\<exists>maxlimit d1 live d2 k.
         get_current_danmaku_info rt d cid = ((maxlimit, []), d1)
         \<and> get_segmented_danmaku rt d1 cid = (live, d2)
         \<and> get_complete_danmaku_js_style fuel rt d cid None start_days end_days_opt
             = Some (Inr live, d2)
         \<and> 1 \<le> k \<and> k \<le> 100
         \<and> requests_of (trace d2)
             = requests_of (trace d) @ SegUrl cid 1 # map (SegUrl cid) [1..<Suc k]
         \<and> distinct (map (fingerprint rt) live)
         \<and> sorted (map progress (save_danmaku_xml_order live))
         \<and> mset (save_danmaku_xml_order live) = mset live)"
proof
  show "get_history_danmaku_js_style fuel rt d cid None start_days end_days target_count
     = Some (Inr [], d)"
    by (simp add: get_history_danmaku_js_style_def)
next
  from get_current_danmaku_info_sample [of rt d cid] obtain maxlimit d1 where
    info: "get_current_danmaku_info rt d cid = ((maxlimit, []), d1)"
    and t1: "trace d1 = trace d @ [Get (SegUrl cid 1)]"
    by blast
  obtain live d2 where seg: "get_segmented_danmaku rt d1 cid = (live, d2)"
    by (cases "get_segmented_danmaku rt d1 cid")
  from get_segmented_pool_inv [OF seg] have dist: "distinct (map (fingerprint rt) live)"
    and rend: "\<forall>x \<in> set live. get_unique_id rt x = Inr (fingerprint rt x)"
    by (simp_all add: pool_inv_def)
  from get_segmented_requests [OF seg] t1 obtain k where
    k: "1 \<le> k" "k \<le> 100"
    and rq: "requests_of (trace d2)
        = requests_of (trace d) @ SegUrl cid 1 # map (SegUrl cid) [1..<Suc k]"
    by auto
  have "get_complete_danmaku_js_style fuel rt d cid None start_days end_days_opt
      = Some (merge_all rt (if live \<noteq> [] then [live] else []), d2)"
    using info seg by (simp add: get_complete_danmaku_js_style_def Let_def)
  then have out: "get_complete_danmaku_js_style fuel rt d cid None start_days end_days_opt
      = Some (Inr live, d2)"
    by (simp only: merge_all_single [OF dist rend])
  have "sorted (map progress (save_danmaku_xml_order live))"
    "mset (save_danmaku_xml_order live) = mset live"
    by (simp_all add: save_danmaku_xml_order_def)
  with info seg out k rq dist
  show "\<exists>maxlimit d1 live d2 k.
         get_current_danmaku_info rt d cid = ((maxlimit, []), d1)
         \<and> get_segmented_danmaku rt d1 cid = (live, d2)
         \<and> get_complete_danmaku_js_style fuel rt d cid None start_days end_days_opt
             = Some (Inr live, d2)
         \<and> 1 \<le> k \<and> k \<le> 100
         \<and> requests_of (trace d2)
             = requests_of (trace d) @ SegUrl cid 1 # map (SegUrl cid) [1..<Suc k]
         \<and> distinct (map (fingerprint rt) live)
         \<and> sorted (map progress (save_danmaku_xml_order live))
         \<and> mset (save_danmaku_xml_order live) = mset live"
    by blast
qed

text \<open>
  C10. The archive fetch does not depend on \<^verbatim>\<open>end_days\<close>: for every runtime (clock and
  server included), downloader state, owner id, publish date, start offset, target count
  and fuel, two values of \<^verbatim>\<open>end_days\<close> give the same result, the same requests and the
  same final downloader state, since both branches of the test on \<^verbatim>\<open>end_days\<close> start
  from yesterday.
\<close>

theorem history_independent_of_end_days:
  "get_history_danmaku_js_style fuel rt d cid video_date start_days e1 target_count
     = get_history_danmaku_js_style fuel rt d cid video_date start_days e2 target_count"
  by (simp add: get_history_danmaku_js_style_def)

end
